theory Spec2Isabelle
  imports Main "HOL-Library.AList"
begin

section \<open>JavaScript strings\<close>

text \<open>
  A JavaScript string is a sequence of UTF-16 code units.  A code unit is kept as a natural
  number (below 65536 for a real string); the regular expressions and string methods of the
  plugin work on code units, so the model does too.  \<open>js\<close> writes an ASCII literal.
\<close>

type_synonym jsstring = "nat list"

definition js :: "string \<Rightarrow> jsstring" where
  "js s = map of_char s"

text \<open>\<^verbatim>\<open>s.startsWith(p)\<close>\<close>

definition startsWith :: "jsstring \<Rightarrow> jsstring \<Rightarrow> bool" where
  "startsWith s p = (take (length p) s = p)"

section \<open>The vault's files\<close>

text \<open>
  Obsidian's \<^verbatim>\<open>TAbstractFile\<close> is a \<^verbatim>\<open>TFile\<close> or a \<^verbatim>\<open>TFolder\<close>; the plugin reads
  a file's \<^verbatim>\<open>path\<close> and \<^verbatim>\<open>basename\<close> and a folder's \<^verbatim>\<open>path\<close>.
\<close>

record TFile =
  path :: jsstring
  basename :: jsstring

datatype TAbstractFile = File TFile | Folder jsstring

section \<open>The progress store (EpubPlugin)\<close>

text \<open>
  \<^verbatim>\<open>type BookProgress = { location: string | number; updatedAt: number }\<close>.
  \<^verbatim>\<open>data.progress\<close> is a plain JavaScript object used as a dictionary from normalized
  book paths to records.  Its own properties are an association list in the order of
  \<^verbatim>\<open>Object.entries\<close>.  \<^verbatim>\<open>saveTimer\<close> tells whether the debounced save is armed.
  Obsidian's \<^verbatim>\<open>normalizePath\<close> and the clock \<^verbatim>\<open>Date.now()\<close> are parameters.
\<close>

datatype location = LocString jsstring | LocNumber int

record BookProgress =
  location :: location
  updatedAt :: nat

text \<open>
  A read \<^verbatim>\<open>progress[k]\<close> that finds no own property continues in \<^verbatim>\<open>Object.prototype\<close>,
  so it yields a stored record or, for one of the names below, a member every object
  inherits (a function; for \<^verbatim>\<open>__proto__\<close> the prototype object).  Records and inherited
  members are all truthy: \<^verbatim>\<open>progress[k]\<close> is truthy exactly when \<open>getProperty\<close> finds a
  value.  The rename handler can store what it has read, so the dictionary's values are
  of both kinds.
\<close>

datatype jsvalue = Stored BookProgress | Inherited jsstring

definition objectPrototypeNames :: "jsstring list" where
  "objectPrototypeNames =
     map js [''constructor'', ''hasOwnProperty'', ''isPrototypeOf'', ''propertyIsEnumerable'',
             ''toLocaleString'', ''toString'', ''valueOf'', ''__proto__'',
             ''__defineGetter__'', ''__defineSetter__'', ''__lookupGetter__'', ''__lookupSetter__'']"

definition getProperty :: "(jsstring \<times> jsvalue) list \<Rightarrow> jsstring \<Rightarrow> jsvalue option" where
  "getProperty obj key =
     (case map_of obj key of
        Some v \<Rightarrow> Some v
      | None \<Rightarrow> if key \<in> set objectPrototypeNames then Some (Inherited key) else None)"

record EpubPlugin =
  progress :: "(jsstring \<times> jsvalue) list"
  saveTimer :: bool

definition normalizeProgressKey :: "(jsstring \<Rightarrow> jsstring) \<Rightarrow> jsstring \<Rightarrow> jsstring" where
  "normalizeProgressKey normalizePath bookPath = normalizePath bookPath"

definition requestSave :: "EpubPlugin \<Rightarrow> EpubPlugin" where
  "requestSave p = p\<lparr>saveTimer := True\<rparr>"

text \<open>
  \<^verbatim>\<open>this.data.progress[key]?.location ?? null\<close>: an inherited member has no property
  \<^verbatim>\<open>location\<close>, so only a stored record gives a location.
\<close>

definition getProgress :: "(jsstring \<Rightarrow> jsstring) \<Rightarrow> EpubPlugin \<Rightarrow> jsstring \<Rightarrow> location option" where
  "getProgress normalizePath p bookPath =
     (let key = normalizeProgressKey normalizePath bookPath in
      case getProperty (progress p) key of
        Some (Stored r) \<Rightarrow> Some (location r)
      | _ \<Rightarrow> None)"

definition setProgress ::
    "(jsstring \<Rightarrow> jsstring) \<Rightarrow> nat \<Rightarrow> EpubPlugin \<Rightarrow> jsstring \<Rightarrow> location \<Rightarrow> EpubPlugin" where
  "setProgress normalizePath now p bookPath loc =
     (let key = normalizeProgressKey normalizePath bookPath in
      requestSave (p\<lparr>progress :=
        AList.update key (Stored \<lparr>location = loc, updatedAt = now\<rparr>) (progress p)\<rparr>))"

text \<open>
  The folder branch of the rename handler: the loop over \<^verbatim>\<open>Object.entries(this.data.progress)\<close>
  with the accumulators \<^verbatim>\<open>next\<close> (a copy \<^verbatim>\<open>{ ...this.data.progress }\<close>, read with
  \<^verbatim>\<open>!next[moved]\<close>) and \<^verbatim>\<open>changed\<close>.
\<close>

fun migrateFolder ::
    "jsstring \<Rightarrow> jsstring \<Rightarrow> (jsstring \<times> jsvalue) list \<Rightarrow>
     (jsstring \<times> jsvalue) list \<times> bool \<Rightarrow> (jsstring \<times> jsvalue) list \<times> bool" where
  "migrateFolder oldPrefix newPrefix [] acc = acc"
| "migrateFolder oldPrefix newPrefix ((k, v) # es) (nxt, changed) =
     (if startsWith k oldPrefix then
        (let moved = newPrefix @ drop (length oldPrefix) k;
             nxt1 = (case getProperty nxt moved of None \<Rightarrow> AList.update moved v nxt | Some _ \<Rightarrow> nxt);
             nxt2 = AList.delete k nxt1
         in migrateFolder oldPrefix newPrefix es (nxt2, True))
      else migrateFolder oldPrefix newPrefix es (nxt, changed))"

text \<open>
  The handler of \<^verbatim>\<open>vault.on("rename", (af, oldPath) => ...)\<close>; \<^verbatim>\<open>af.path\<close> is the new path.
  In the file branch both tests are the truthiness of a read \<^verbatim>\<open>this.data.progress[key]\<close>,
  the copy assigns the value read at the old key, and \<^verbatim>\<open>delete\<close> removes an own property
  only.
\<close>

definition onRename ::
    "(jsstring \<Rightarrow> jsstring) \<Rightarrow> EpubPlugin \<Rightarrow> TAbstractFile \<Rightarrow> jsstring \<Rightarrow> EpubPlugin" where
  "onRename normalizePath p af oldPath =
     (let oldKey = normalizeProgressKey normalizePath oldPath in
      case af of
        Folder newPath \<Rightarrow>
          (let oldPrefix = normalizePath oldPath @ js ''/'';
               newPrefix = normalizePath newPath @ js ''/''
           in case migrateFolder oldPrefix newPrefix (progress p) (progress p, False) of
                (nxt, changed) \<Rightarrow> if changed then requestSave (p\<lparr>progress := nxt\<rparr>) else p)
      | File f \<Rightarrow>
          (let newKey = normalizeProgressKey normalizePath (path f);
               p1 = (case (getProperty (progress p) oldKey, getProperty (progress p) newKey) of
                       (Some v, None) \<Rightarrow> p\<lparr>progress := AList.update newKey v (progress p)\<rparr>
                     | _ \<Rightarrow> p)
           in case getProperty (progress p1) oldKey of
                Some _ \<Rightarrow> requestSave (p1\<lparr>progress := AList.delete oldKey (progress p1)\<rparr>)
              | None \<Rightarrow> p1))"

section \<open>The reader (EpubReader)\<close>

text \<open>
  \<^verbatim>\<open>type BacklinkHighlight = { cfiRange: string; sourceFile: TFile; display: string }\<close>
\<close>

record BacklinkHighlight =
  cfiRange :: jsstring
  sourceFile :: TFile
  display :: jsstring

text \<open>
  Modelled from the spec: the renderer contract (section 6).  The rendering surface is
  epub.js's \<^verbatim>\<open>Rendition\<close>, an external collaborator of which the reader uses
  \<^verbatim>\<open>display(range)\<close>, \<^verbatim>\<open>annotations.add("highlight", range, ...)\<close> and
  \<^verbatim>\<open>annotations.remove(range, "highlight")\<close>, each succeeding or failing.
  \<^item> \<open>display_resolves\<close> tells whether \<^verbatim>\<open>display(cfi)\<close> resolves; \<open>display_log\<close> records
    every call of \<^verbatim>\<open>display\<close>, and \<open>displayed\<close> is the target shown last.
  \<^item> \<open>valid_range\<close> tells whether the surface can render a range: \<^verbatim>\<open>add\<close> throws on a
    malformed or unrenderable range (section 4.4) and otherwise puts one more annotation
    on the surface.  \<open>marks\<close> lists the highlight annotations on the surface, one entry
    per successful \<^verbatim>\<open>add\<close>, so that a range added twice shows as two entries.
  \<^item> \<open>remove_marks\<close> is what \<^verbatim>\<open>remove\<close> does: the contract says only that a removal
    succeeds or fails (section 4.4: it fails on a stale range), not which annotations a
    successful one takes away, so this is a parameter of the surface: from the range and
    the annotations present, \<open>None\<close> when the call throws, else the annotations left.
\<close>

record Rendition =
  display_resolves :: "jsstring \<Rightarrow> bool"
  display_log :: "jsstring list"
  displayed :: "jsstring option"
  valid_range :: "jsstring \<Rightarrow> bool"
  marks :: "jsstring list"
  remove_marks :: "jsstring \<Rightarrow> jsstring list \<Rightarrow> jsstring list option"



definition rendition_display :: "Rendition \<Rightarrow> jsstring \<Rightarrow> Rendition \<times> bool" where
  "rendition_display r cfi =
     (if display_resolves r cfi
      then (r\<lparr>display_log := display_log r @ [cfi], displayed := Some cfi\<rparr>, True)
      else (r\<lparr>display_log := display_log r @ [cfi]\<rparr>, False))"

text \<open>
  The refs of the \<^verbatim>\<open>EpubReader\<close> component.  \<^verbatim>\<open>renditionRef.current\<close> is null until
  \<^verbatim>\<open>getRendition\<close> delivers a rendition; the rendition is kept in the ref, so an effect on
  it is an update of the ref's content.
\<close>

record EpubReader =
  renditionRef :: "Rendition option"
  pendingJumpRef :: "jsstring option"
  addedBacklinkCfisRef :: "jsstring list"

text \<open>
  \<^verbatim>\<open>cfi.match(/^epubcfi\((.+?),/)\<close>: after the literal prefix the lazy group takes at least
  one character and stops before the first later comma; \<^verbatim>\<open>.\<close> matches no line
  terminator (LF, CR, U+2028, U+2029).  Code 44 is the comma.
\<close>

definition lineTerminator :: "nat \<Rightarrow> bool" where
  "lineTerminator c = (c = 10 \<or> c = 13 \<or> c = 8232 \<or> c = 8233)"

fun lazyUntilComma :: "jsstring \<Rightarrow> jsstring option" where
  "lazyUntilComma [] = None"
| "lazyUntilComma (c # cs) =
     (if c = 44 then Some []
      else if lineTerminator c then None
      else map_option (Cons c) (lazyUntilComma cs))"

definition getRangeStartCfi :: "jsstring \<Rightarrow> jsstring option" where
  "getRangeStartCfi cfi =
     (if startsWith cfi (js ''epubcfi('') then
        (case drop 8 cfi of
           [] \<Rightarrow> None
         | c # cs \<Rightarrow>
             if lineTerminator c then None
             else (case lazyUntilComma cs of
                     None \<Rightarrow> None
                   | Some m \<Rightarrow> Some (js ''epubcfi('' @ (c # m) @ js '')'')))
      else None)"

text \<open>
  \<^verbatim>\<open>tryDisplayCfi\<close> awaits \<^verbatim>\<open>book.ready\<close> (a rejection is ignored) and then reports
  whether \<^verbatim>\<open>rendition.display(cfi)\<close> resolved.  Each handler is modelled as one atomic
  step: the promise's continuation runs right after the display attempt.
\<close>

definition tryDisplayCfi :: "Rendition \<Rightarrow> jsstring \<Rightarrow> Rendition \<times> bool" where
  "tryDisplayCfi rendition cfi = rendition_display rendition cfi"

definition displayJumpCfi :: "EpubReader \<Rightarrow> jsstring \<Rightarrow> EpubReader \<times> bool" where
  "displayJumpCfi st cfi =
     (case renditionRef st of
        None \<Rightarrow> (st, False)
      | Some r \<Rightarrow>
          (case tryDisplayCfi r cfi of
             (r1, True) \<Rightarrow> (st\<lparr>renditionRef := Some r1\<rparr>, True)
           | (r1, False) \<Rightarrow>
               (case getRangeStartCfi cfi of
                  None \<Rightarrow> (st\<lparr>renditionRef := Some r1\<rparr>, False)
                | Some fallback \<Rightarrow>
                    if fallback \<noteq> [] \<and> fallback \<noteq> cfi
                    then (case tryDisplayCfi r1 fallback of
                            (r2, ok) \<Rightarrow> (st\<lparr>renditionRef := Some r2\<rparr>, ok))
                    else (st\<lparr>renditionRef := Some r1\<rparr>, False))))"

text \<open>
  The effect on the prop \<^verbatim>\<open>jumpCfiRange\<close> (null, or a string; the empty string is falsy
  too), and the callback \<^verbatim>\<open>getRendition\<close> of the reader component.
\<close>

definition jumpEffect :: "EpubReader \<Rightarrow> jsstring option \<Rightarrow> EpubReader" where
  "jumpEffect st jumpCfiRange =
     (case jumpCfiRange of
        None \<Rightarrow> st
      | Some cfi \<Rightarrow>
          if cfi = [] then st
          else (case displayJumpCfi (st\<lparr>pendingJumpRef := Some cfi\<rparr>) cfi of
                  (st1, ok) \<Rightarrow> if ok then st1\<lparr>pendingJumpRef := None\<rparr> else st1))"

definition getRendition :: "EpubReader \<Rightarrow> Rendition \<Rightarrow> EpubReader" where
  "getRendition st rendition =
     (let st0 = st\<lparr>renditionRef := Some rendition, addedBacklinkCfisRef := []\<rparr> in
      case pendingJumpRef st0 of
        None \<Rightarrow> st0
      | Some cfi \<Rightarrow>
          if cfi = [] then st0
          else (case displayJumpCfi st0 cfi of
                  (st1, ok) \<Rightarrow> if ok then st1\<lparr>pendingJumpRef := None\<rparr> else st1))"




text \<open>Observations of a reader: the display calls made so far, and the target shown.\<close>

definition displayAttempts :: "EpubReader \<Rightarrow> jsstring list" where
  "displayAttempts st = (case renditionRef st of None \<Rightarrow> [] | Some r \<Rightarrow> display_log r)"

definition shown :: "EpubReader \<Rightarrow> jsstring option" where
  "shown st = (case renditionRef st of None \<Rightarrow> None | Some r \<Rightarrow> displayed r)"

section \<open>The range-token codec (utils)\<close>

text \<open>
  \<^verbatim>\<open>base64UrlEncode\<close> and \<^verbatim>\<open>base64UrlDecode\<close> are built from four functions of the
  platform: \<^verbatim>\<open>TextEncoder.encode\<close>, \<^verbatim>\<open>btoa\<close>, \<^verbatim>\<open>atob\<close> and \<^verbatim>\<open>TextDecoder.decode\<close>.
  They are modelled after their standards (WHATWG Encoding, and the forgiving base64 of
  WHATWG Infra and HTML).  A function that throws returns \<open>Inl\<close> of the exception.
\<close>

datatype js_error = InvalidCharacterError | URIError

text \<open>
  \<^verbatim>\<open>new TextEncoder().encode(input)\<close>: the string is first converted to scalar values
  (a surrogate pair gives one code point, a lone surrogate becomes U+FFFD), and each
  scalar value is written in UTF-8.
\<close>

definition isHighSurrogate :: "nat \<Rightarrow> bool" where
  "isHighSurrogate c = (0xD800 \<le> c \<and> c \<le> 0xDBFF)"

definition isLowSurrogate :: "nat \<Rightarrow> bool" where
  "isLowSurrogate c = (0xDC00 \<le> c \<and> c \<le> 0xDFFF)"

fun toScalarValues :: "jsstring \<Rightarrow> nat list" where
  "toScalarValues [] = []"
| "toScalarValues [c] = (if isHighSurrogate c \<or> isLowSurrogate c then [0xFFFD] else [c])"
| "toScalarValues (c # d # cs) =
     (if isHighSurrogate c then
        (if isLowSurrogate d
         then (0x10000 + (c - 0xD800) * 0x400 + (d - 0xDC00)) # toScalarValues cs
         else 0xFFFD # toScalarValues (d # cs))
      else if isLowSurrogate c then 0xFFFD # toScalarValues (d # cs)
      else c # toScalarValues (d # cs))"

definition utf8EncodeScalar :: "nat \<Rightarrow> nat list" where
  "utf8EncodeScalar c =
     (if c < 0x80 then [c]
      else if c < 0x800 then [0xC0 + c div 0x40, 0x80 + c mod 0x40]
      else if c < 0x10000 then
        [0xE0 + c div 0x1000, 0x80 + c div 0x40 mod 0x40, 0x80 + c mod 0x40]
      else
        [0xF0 + c div 0x40000, 0x80 + c div 0x1000 mod 0x40, 0x80 + c div 0x40 mod 0x40,
         0x80 + c mod 0x40])"

definition TextEncoder_encode :: "jsstring \<Rightarrow> nat list" where
  "TextEncoder_encode input = concat (map utf8EncodeScalar (toScalarValues input))"

text \<open>
  \<^verbatim>\<open>new TextDecoder().decode(bytes)\<close>: the UTF-8 decoder of the Encoding standard, with
  its state (code point, bytes needed, bytes seen, lower and upper boundary), run in
  replacement mode: the decoder is not fatal, so an ill-formed sequence gives an error
  item (\<open>None\<close>) that is output as U+FFFD, and a byte that ends a sequence early is read
  again.  A leading U+FEFF is dropped (\<^verbatim>\<open>ignoreBOM\<close> is false), and the code points are
  written in UTF-16.
\<close>

function utf8Decode :: "nat \<Rightarrow> nat \<Rightarrow> nat \<Rightarrow> nat \<Rightarrow> nat \<Rightarrow> nat list \<Rightarrow> nat option list" where
  "utf8Decode cp needed seen lower upper [] = (if needed \<noteq> 0 then [None] else [])"
| "utf8Decode cp needed seen lower upper (b # bs) =
     (if needed = 0 then
        (if b \<le> 0x7F then Some b # utf8Decode cp needed seen lower upper bs
         else if 0xC2 \<le> b \<and> b \<le> 0xDF then utf8Decode (b mod 0x20) 1 seen lower upper bs
         else if 0xE0 \<le> b \<and> b \<le> 0xEF then
           utf8Decode (b mod 0x10) 2 seen
             (if b = 0xE0 then 0xA0 else lower) (if b = 0xED then 0x9F else upper) bs
         else if 0xF0 \<le> b \<and> b \<le> 0xF4 then
           utf8Decode (b mod 8) 3 seen
             (if b = 0xF0 then 0x90 else lower) (if b = 0xF4 then 0x8F else upper) bs
         else None # utf8Decode cp needed seen lower upper bs)
      else if b < lower \<or> upper < b then None # utf8Decode 0 0 0 0x80 0xBF (b # bs)
      else if seen + 1 \<noteq> needed then
        utf8Decode (cp * 0x40 + b mod 0x40) needed (seen + 1) 0x80 0xBF bs
      else Some (cp * 0x40 + b mod 0x40) # utf8Decode 0 0 0 0x80 0xBF bs)"
  by pat_completeness auto
termination
  by (relation "measure (\<lambda>(cp, needed, seen, lower, upper, bs).
        2 * length bs + (if needed = 0 then 0 else 1))") auto

definition utf16Encode :: "nat \<Rightarrow> jsstring" where
  "utf16Encode cp =
     (if cp < 0x10000 then [cp]
      else [0xD800 + (cp - 0x10000) div 0x400, 0xDC00 + (cp - 0x10000) mod 0x400])"

definition TextDecoder_decode :: "nat list \<Rightarrow> jsstring" where
  "TextDecoder_decode bytes =
     (let output = map (\<lambda>item. case item of None \<Rightarrow> 0xFFFD | Some cp \<Rightarrow> cp)
                     (utf8Decode 0 0 0 0x80 0xBF bytes);
          output1 = (case output of [] \<Rightarrow> [] | cp # rest \<Rightarrow> if cp = 0xFEFF then rest else output)
      in concat (map utf16Encode output1))"

text \<open>
  \<^verbatim>\<open>btoa(binary)\<close> throws on a code unit above 0xFF and otherwise writes the bytes in
  base64 with padding.  \<^verbatim>\<open>atob(base64)\<close> is the forgiving decoder: ASCII whitespace is
  removed; one or two trailing \<^verbatim>\<open>=\<close> are removed when the length is a multiple of 4; the
  call throws when the remaining length is 1 modulo 4 or a character is outside the
  base64 alphabet; bits left over at the end are discarded.  Code 61 is \<^verbatim>\<open>=\<close>.
\<close>

definition b64char :: "nat \<Rightarrow> nat" where
  "b64char n =
     (if n < 26 then 65 + n else if n < 52 then 71 + n else if n < 62 then n - 4
      else if n = 62 then 43 else 47)"

definition b64value :: "nat \<Rightarrow> nat option" where
  "b64value c =
     (if 65 \<le> c \<and> c \<le> 90 then Some (c - 65)
      else if 97 \<le> c \<and> c \<le> 122 then Some (c - 71)
      else if 48 \<le> c \<and> c \<le> 57 then Some (c + 4)
      else if c = 43 then Some 62
      else if c = 47 then Some 63
      else None)"

fun sextets :: "nat list \<Rightarrow> nat list" where
  "sextets (a # b # c # rest) =
     [a div 4, a mod 4 * 16 + b div 16, b mod 16 * 4 + c div 64, c mod 64] @ sextets rest"
| "sextets [a, b] = [a div 4, a mod 4 * 16 + b div 16, b mod 16 * 4]"
| "sextets [a] = [a div 4, a mod 4 * 16]"
| "sextets [] = []"

fun octets :: "nat list \<Rightarrow> nat list" where
  "octets (w # x # y # z # rest) =
     [w * 4 + x div 16, x mod 16 * 16 + y div 4, y mod 4 * 64 + z] @ octets rest"
| "octets [w, x, y] = [w * 4 + x div 16, x mod 16 * 16 + y div 4]"
| "octets [w, x] = [w * 4 + x div 16]"
| "octets [w] = []"
| "octets [] = []"

definition btoa :: "jsstring \<Rightarrow> js_error + jsstring" where
  "btoa s =
     (if list_all (\<lambda>c. c \<le> 0xFF) s
      then Inr (map b64char (sextets s) @ replicate ((3 - length s mod 3) mod 3) 61)
      else Inl InvalidCharacterError)"

definition asciiWhitespace :: "nat \<Rightarrow> bool" where
  "asciiWhitespace c = (c = 9 \<or> c = 10 \<or> c = 12 \<or> c = 13 \<or> c = 32)"

definition removePadding :: "jsstring \<Rightarrow> jsstring" where
  "removePadding d =
     (case rev d of
        a # b # r \<Rightarrow> if a = 61 \<and> b = 61 then rev r else if a = 61 then rev (b # r) else d
      | _ \<Rightarrow> d)"

definition atob :: "jsstring \<Rightarrow> js_error + jsstring" where
  "atob s =
     (let d0 = filter (\<lambda>c. \<not> asciiWhitespace c) s;
          d1 = (if length d0 mod 4 = 0 then removePadding d0 else d0)
      in if length d1 mod 4 = 1 then Inl InvalidCharacterError
         else (case those (map b64value d1) of
                 None \<Rightarrow> Inl InvalidCharacterError
               | Some v \<Rightarrow> Inr (octets v)))"

text \<open>
  \<^verbatim>\<open>s.replace(/x/g, "y")\<close> for a single character, \<^verbatim>\<open>s.replace(/=+$/g, "")\<close>, and the
  loop \<^verbatim>\<open>while (base64.length % 4) base64 += "="\<close>.
\<close>

definition replaceAll :: "nat \<Rightarrow> nat \<Rightarrow> jsstring \<Rightarrow> jsstring" where
  "replaceAll x y s = map (\<lambda>c. if c = x then y else c) s"

definition stripTrailing :: "nat \<Rightarrow> jsstring \<Rightarrow> jsstring" where
  "stripTrailing x s = rev (dropWhile (\<lambda>c. c = x) (rev s))"

lemma pad_measure:
  assumes "n mod 4 \<noteq> 0"
  shows "(4 - Suc n mod 4) mod 4 < (4 - n mod 4) mod (4::nat)"
proof -
  have "n mod 4 < 4" by simp
  with assms have r: "n mod 4 = 1 \<or> n mod 4 = 2 \<or> n mod 4 = 3" by linarith
  have s: "Suc n mod 4 = (if Suc (n mod 4) = 4 then 0 else Suc (n mod 4))"
    by (rule mod_Suc)
  from r show ?thesis
  proof (elim disjE)
    assume a: "n mod 4 = 1"
    show ?thesis unfolding s a by simp
  next
    assume a: "n mod 4 = 2"
    show ?thesis unfolding s a by simp
  next
    assume a: "n mod 4 = 3"
    show ?thesis unfolding s a by simp
  qed
qed

function padLoop :: "jsstring \<Rightarrow> jsstring" where
  "padLoop base64 = (if length base64 mod 4 \<noteq> 0 then padLoop (base64 @ [61]) else base64)"
  by pat_completeness auto
termination
proof (relation "measure (\<lambda>s. (4 - length s mod 4) mod 4)")
  show "wf (measure (\<lambda>s::jsstring. (4 - length s mod 4) mod 4))"
    by (rule wf_measure)
next
  fix base64 :: jsstring
  assume "length base64 mod 4 \<noteq> 0"
  then have "(4 - Suc (length base64) mod 4) mod 4 < (4 - length base64 mod 4) mod 4"
    by (rule pad_measure)
  then show "(base64 @ [61], base64) \<in> measure (\<lambda>s. (4 - length s mod 4) mod 4)"
    by (simp del: mod_Suc)
qed

declare padLoop.simps [simp del]

text \<open>
  The two functions of \<^verbatim>\<open>utils.ts\<close>.  In \<^verbatim>\<open>base64UrlEncode\<close> the loop over \<^verbatim>\<open>bytes\<close>
  builds the string \<^verbatim>\<open>binary\<close> whose code units are the bytes; in \<^verbatim>\<open>base64UrlDecode\<close>
  the loop stores each code unit of \<^verbatim>\<open>binary\<close> in a \<^verbatim>\<open>Uint8Array\<close>, that is modulo 256.
  Codes 43, 45, 47, 95 are \<^verbatim>\<open>+\<close>, \<^verbatim>\<open>-\<close>, \<^verbatim>\<open>/\<close>, \<^verbatim>\<open>_\<close>.
\<close>

definition base64UrlEncode :: "jsstring \<Rightarrow> js_error + jsstring" where
  "base64UrlEncode input =
     (let bytes = TextEncoder_encode input;
          binary = bytes
      in case btoa binary of
           Inl e \<Rightarrow> Inl e
         | Inr base64 \<Rightarrow> Inr (stripTrailing 61 (replaceAll 47 95 (replaceAll 43 45 base64))))"

definition base64UrlDecode :: "jsstring \<Rightarrow> js_error + jsstring" where
  "base64UrlDecode encoded =
     (let base64 = padLoop (replaceAll 95 47 (replaceAll 45 43 encoded)) in
      case atob base64 of
        Inl e \<Rightarrow> Inl e
      | Inr binary \<Rightarrow> Inr (TextDecoder_decode (map (\<lambda>c. c mod 256) binary)))"

text \<open>
  Strings without a lone surrogate, and the token alphabet \<^verbatim>\<open>[A-Za-z0-9_-]\<close> of the
  regular expressions.
\<close>

definition scalarValue :: "nat \<Rightarrow> bool" where
  "scalarValue c = (c < 0x110000 \<and> (c < 0xD800 \<or> 0xDFFF < c))"

fun wellFormed :: "jsstring \<Rightarrow> bool" where
  "wellFormed [] = True"
| "wellFormed [c] = (c < 0x10000 \<and> \<not> isHighSurrogate c \<and> \<not> isLowSurrogate c)"
| "wellFormed (c # d # cs) =
     (c < 0x10000 \<and>
      (if isHighSurrogate c then isLowSurrogate d \<and> wellFormed cs
       else \<not> isLowSurrogate c \<and> wellFormed (d # cs)))"

definition tokenChar :: "nat \<Rightarrow> bool" where
  "tokenChar c =
     ((65 \<le> c \<and> c \<le> 90) \<or> (97 \<le> c \<and> c \<le> 122) \<or> (48 \<le> c \<and> c \<le> 57) \<or> c = 95 \<or> c = 45)"

text \<open>
  The search of a regular expression \<^verbatim>\<open>key([A-Za-z0-9_-]+)\<close> in a string: the leftmost
  position where the literal \<open>key\<close> is followed by at least one token character; the
  group takes the longest run.  The result is the end of the match and the group.
\<close>

fun regexSearch :: "jsstring \<Rightarrow> jsstring \<Rightarrow> (nat \<times> jsstring) option" where
  "regexSearch key [] = None"
| "regexSearch key (c # cs) =
     (if startsWith (c # cs) key \<and> takeWhile tokenChar (drop (length key) (c # cs)) \<noteq> []
      then Some (length key + length (takeWhile tokenChar (drop (length key) (c # cs))),
                 takeWhile tokenChar (drop (length key) (c # cs)))
      else map_option (\<lambda>(e, m). (Suc e, m)) (regexSearch key cs))"

section \<open>The backlink resolver (BacklinkManager)\<close>

text \<open>
  What the resolver reads of Obsidian's \<^verbatim>\<open>App\<close>.  A link or embed of a note's cache has
  the fields \<^verbatim>\<open>link\<close>, \<^verbatim>\<open>original\<close> (read through \<^verbatim>\<open>any\<close>, so it may be undefined) and
  \<^verbatim>\<open>displayText\<close> (optional).  \<^verbatim>\<open>metadataCache.resolvedLinks\<close> is an object from source
  paths to objects from destination paths to counts: association lists in the order of
  \<^verbatim>\<open>Object.entries\<close>, a falsy entry being \<open>None\<close>.  \<^verbatim>\<open>vault.getAbstractFileByPath\<close>,
  \<^verbatim>\<open>metadataCache.getFileCache\<close> and \<^verbatim>\<open>metadataCache.getFirstLinkpathDest\<close> are functions
  of the platform and are parameters here; each may return null.
\<close>

record LinkCache =
  link :: jsstring
  original :: "jsstring option"
  displayText :: "jsstring option"

record CachedMetadata =
  links :: "LinkCache list option"
  embeds :: "LinkCache list option"

record App =
  resolvedLinks :: "(jsstring \<times> (jsstring \<times> nat) list option) list"
  getAbstractFileByPath :: "jsstring \<Rightarrow> TAbstractFile option"
  getFileCache :: "TFile \<Rightarrow> CachedMetadata option"
  getFirstLinkpathDest :: "jsstring \<Rightarrow> jsstring \<Rightarrow> TFile option"

text \<open>
  \<^verbatim>\<open>const CFI64_REGEX = /#cfi64=([A-Za-z0-9_-]+)/g\<close> and \<^verbatim>\<open>CFI64_REGEX.exec(str)\<close> with
  the expression's \<^verbatim>\<open>lastIndex\<close>: the search starts at \<^verbatim>\<open>lastIndex\<close>; a match gives the
  group and sets \<^verbatim>\<open>lastIndex\<close> to the end of the match.
\<close>

definition CFI64_REGEX_exec :: "jsstring \<Rightarrow> nat \<Rightarrow> (jsstring \<times> nat) option" where
  "CFI64_REGEX_exec str lastIndex =
     (if length str < lastIndex then None
      else (case regexSearch (js ''#cfi64='') (drop lastIndex str) of
              None \<Rightarrow> None
            | Some (e, m) \<Rightarrow> Some (m, lastIndex + e)))"

text \<open>\<^verbatim>\<open>s.indexOf(sub)\<close>, which is -1 when \<open>sub\<close> does not occur.\<close>

fun indexOfFrom :: "jsstring \<Rightarrow> jsstring \<Rightarrow> nat \<Rightarrow> int" where
  "indexOfFrom [] sub i = (if sub = [] then int i else - 1)"
| "indexOfFrom (c # cs) sub i =
     (if startsWith (c # cs) sub then int i else indexOfFrom cs sub (Suc i))"

definition indexOf :: "jsstring \<Rightarrow> jsstring \<Rightarrow> int" where
  "indexOf s sub = indexOfFrom s sub 0"

text \<open>
  The body of the \<^verbatim>\<open>while\<close> loop for one match.  The state is the set \<^verbatim>\<open>seenEncoded\<close> and
  the list \<^verbatim>\<open>results\<close>; \<open>Next\<close> goes on with the loops (also for \<^verbatim>\<open>continue\<close>) and
  \<open>Return\<close> is the \<^verbatim>\<open>return results\<close> inside them.  The token is added to the set before
  the \<^verbatim>\<open>try\<close>; an exception of \<^verbatim>\<open>base64UrlDecode\<close> is caught and ignored; the bound
  \<^verbatim>\<open>results.length >= limit\<close> is tested after the push.
\<close>

datatype 'a flow = Next 'a | Return 'a

type_synonym scan_state = "jsstring set \<times> BacklinkHighlight list"

definition processMatch ::
    "jsstring \<Rightarrow> TFile \<Rightarrow> jsstring \<Rightarrow> int \<Rightarrow> scan_state \<Rightarrow> scan_state flow" where
  "processMatch encoded source disp limit st =
     (case st of (seenEncoded, results) \<Rightarrow>
        if encoded = [] then Next st
        else if encoded \<in> seenEncoded then Next st
        else (case base64UrlDecode encoded of
                Inl _ \<Rightarrow> Next (insert encoded seenEncoded, results)
              | Inr decoded \<Rightarrow>
                  (let results' = results @ [\<lparr>cfiRange = decoded, sourceFile = source, display = disp\<rparr>]
                   in if limit \<le> int (length results')
                      then Return (insert encoded seenEncoded, results')
                      else Next (insert encoded seenEncoded, results'))))"

text \<open>The loop \<^verbatim>\<open>while ((m = CFI64_REGEX.exec(original)) !== null)\<close>; it ends because every
  match is not empty, so \<^verbatim>\<open>lastIndex\<close> grows.\<close>

lemma regexSearch_bounds:
  "regexSearch key s = Some (e, m) \<Longrightarrow> 0 < e \<and> e \<le> length s \<and> m \<noteq> [] \<and> list_all tokenChar m"
proof (induction s arbitrary: e)
  case Nil
  then show ?case by simp
next
  case (Cons c cs)
  show ?case
  proof (cases "startsWith (c # cs) key \<and> takeWhile tokenChar (drop (length key) (c # cs)) \<noteq> []")
    case True
    let ?m = "takeWhile tokenChar (drop (length key) (c # cs))"
    from True Cons.prems have e: "e = length key + length ?m" and m: "m = ?m" by auto
    have "length (take (length key) (c # cs)) = length key"
      using True by (simp add: startsWith_def)
    then have k: "length key \<le> length (c # cs)" by simp
    have "length ?m \<le> length (drop (length key) (c # cs))"
      by (rule length_takeWhile_le)
    then have "length key + length ?m \<le> length (c # cs)" using k by simp
    moreover have "0 < length ?m" using True by simp
    moreover have "list_all tokenChar ?m"
      by (simp add: list_all_iff) (meson set_takeWhileD)
    ultimately show ?thesis using e m True by simp
  next
    case False
    with Cons.prems obtain e' where r: "regexSearch key cs = Some (e', m)" and e: "e = Suc e'"
      by (auto split: if_splits)
    from Cons.IH [OF r] e show ?thesis by simp
  qed
qed

lemma CFI64_REGEX_exec_advances:
  assumes "CFI64_REGEX_exec str lastIndex = Some (encoded, lastIndex')"
  shows "lastIndex < lastIndex' \<and> lastIndex' \<le> length str \<and> encoded \<noteq> [] \<and> list_all tokenChar encoded"
proof -
  from assms have le: "lastIndex \<le> length str"
    by (auto simp: CFI64_REGEX_exec_def split: if_splits)
  from assms obtain e where r: "regexSearch (js ''#cfi64='') (drop lastIndex str) = Some (e, encoded)"
    and l: "lastIndex' = lastIndex + e"
    by (auto simp: CFI64_REGEX_exec_def split: if_splits option.splits)
  from regexSearch_bounds [OF r] le l show ?thesis by auto
qed

function scanOriginal ::
    "jsstring \<Rightarrow> nat \<Rightarrow> TFile \<Rightarrow> jsstring \<Rightarrow> int \<Rightarrow> scan_state \<Rightarrow> scan_state flow" where
  "scanOriginal str lastIndex source disp limit st =
     (case CFI64_REGEX_exec str lastIndex of
        None \<Rightarrow> Next st
      | Some (encoded, lastIndex') \<Rightarrow>
          (case processMatch encoded source disp limit st of
             Return st' \<Rightarrow> Return st'
           | Next st' \<Rightarrow> scanOriginal str lastIndex' source disp limit st'))"
  by pat_completeness auto
termination
proof (relation "measure (\<lambda>(str, lastIndex, source, disp, limit, st). length str - lastIndex)")
  show "wf (measure (\<lambda>(str, lastIndex, source, disp, limit, st). length (str::jsstring) - lastIndex))"
    by (rule wf_measure)
next
  fix str :: jsstring and lastIndex :: nat and source :: TFile and disp :: jsstring
    and limit :: int and st :: scan_state and x2 :: "jsstring \<times> nat" and x y and x1 :: scan_state
  assume "CFI64_REGEX_exec str lastIndex = Some x2" and "(x, y) = x2"
  then have "CFI64_REGEX_exec str lastIndex = Some (x, y)" by simp
  from CFI64_REGEX_exec_advances [OF this]
  show "((str, y, source, disp, limit, x1), (str, lastIndex, source, disp, limit, st))
          \<in> measure (\<lambda>(str, lastIndex, source, disp, limit, st). length str - lastIndex)"
    by auto
qed

declare scanOriginal.simps [simp del]

text \<open>
  The loop over the links and embeds of one note, with the exact resolution of the link
  target, and the loop over the candidate notes.
\<close>

fun scanItems ::
    "App \<Rightarrow> TFile \<Rightarrow> TFile \<Rightarrow> int \<Rightarrow> LinkCache list \<Rightarrow> scan_state \<Rightarrow> scan_state flow" where
  "scanItems app bookFile source limit [] st = Next st"
| "scanItems app bookFile source limit (item # items) st =
     (case getFirstLinkpathDest app (link item) (path source) of
        None \<Rightarrow> scanItems app bookFile source limit items st
      | Some dest \<Rightarrow>
          if path dest \<noteq> path bookFile then scanItems app bookFile source limit items st
          else (case original item of
                  None \<Rightarrow> scanItems app bookFile source limit items st
                | Some orig \<Rightarrow>
                    if orig = [] \<or> indexOf orig (js ''#cfi64='') = - 1
                    then scanItems app bookFile source limit items st
                    else (case scanOriginal orig 0 source
                                 (case displayText item of None \<Rightarrow> basename source | Some d \<Rightarrow> d)
                                 limit st of
                            Return st' \<Rightarrow> Return st'
                          | Next st' \<Rightarrow> scanItems app bookFile source limit items st')))"

definition cacheItems :: "CachedMetadata \<Rightarrow> LinkCache list" where
  "cacheItems cache =
     (case links cache of None \<Rightarrow> [] | Some ls \<Rightarrow> ls) @
     (case embeds cache of None \<Rightarrow> [] | Some es \<Rightarrow> es)"

fun scanCandidates ::
    "App \<Rightarrow> TFile \<Rightarrow> int \<Rightarrow> TFile list \<Rightarrow> scan_state \<Rightarrow> scan_state flow" where
  "scanCandidates app bookFile limit [] st = Next st"
| "scanCandidates app bookFile limit (source # rest) st =
     (case getFileCache app source of
        None \<Rightarrow> scanCandidates app bookFile limit rest st
      | Some cache \<Rightarrow>
          if cacheItems cache = [] then scanCandidates app bookFile limit rest st
          else (case scanItems app bookFile source limit (cacheItems cache) st of
                  Return st' \<Rightarrow> Return st'
                | Next st' \<Rightarrow> scanCandidates app bookFile limit rest st'))"

text \<open>
  The coarse filter over \<^verbatim>\<open>Object.entries(resolvedLinks)\<close>; \<^verbatim>\<open>hasOwnProperty\<close> is
  membership in the destination list, \<^verbatim>\<open>af instanceof TFile\<close> the constructor \<open>File\<close>.
\<close>

fun coarseCandidates ::
    "App \<Rightarrow> jsstring \<Rightarrow> (jsstring \<times> (jsstring \<times> nat) list option) list \<Rightarrow> TFile list" where
  "coarseCandidates app bookPath [] = []"
| "coarseCandidates app bookPath ((sourcePath, destCounts) # entries) =
     (case destCounts of
        None \<Rightarrow> coarseCandidates app bookPath entries
      | Some counts \<Rightarrow>
          if map_of counts bookPath = None then coarseCandidates app bookPath entries
          else (case getAbstractFileByPath app sourcePath of
                  Some (File af) \<Rightarrow> af # coarseCandidates app bookPath entries
                | _ \<Rightarrow> coarseCandidates app bookPath entries))"

definition getHighlightsForBook :: "App \<Rightarrow> TFile \<Rightarrow> int \<Rightarrow> BacklinkHighlight list" where
  "getHighlightsForBook app bookFile limit =
     (case scanCandidates app bookFile limit
             (coarseCandidates app (path bookFile) (resolvedLinks app)) ({}, []) of
        Next (seenEncoded, results) \<Rightarrow> results
      | Return (seenEncoded, results) \<Rightarrow> results)"

text \<open>
  For the statements about the resolver: the matches of one link text in the order of the
  loop, and the occurrences (token, source note, label) that the three nested loops visit,
  in order.  \<open>collect\<close> is the loop body run over such a list; \<open>firstOccurrences\<close> keeps
  the first occurrence of each token; \<open>descriptorOf\<close> is the descriptor of an occurrence
  whose token decodes.
\<close>

type_synonym occurrence = "jsstring \<times> TFile \<times> jsstring"

function allMatches :: "jsstring \<Rightarrow> nat \<Rightarrow> jsstring list" where
  "allMatches str lastIndex =
     (case CFI64_REGEX_exec str lastIndex of
        None \<Rightarrow> []
      | Some (encoded, lastIndex') \<Rightarrow> encoded # allMatches str lastIndex')"
  by pat_completeness auto
termination
proof (relation "measure (\<lambda>(str, lastIndex). length str - lastIndex)")
  show "wf (measure (\<lambda>(str, lastIndex). length (str::jsstring) - lastIndex))"
    by (rule wf_measure)
next
  fix str :: jsstring and lastIndex :: nat and x2 :: "jsstring \<times> nat" and x y
  assume "CFI64_REGEX_exec str lastIndex = Some x2" and "(x, y) = x2"
  then have "CFI64_REGEX_exec str lastIndex = Some (x, y)" by simp
  from CFI64_REGEX_exec_advances [OF this]
  show "((str, y), (str, lastIndex)) \<in> measure (\<lambda>(str, lastIndex). length str - lastIndex)"
    by auto
qed

declare allMatches.simps [simp del]

definition itemOccurrences :: "App \<Rightarrow> TFile \<Rightarrow> TFile \<Rightarrow> LinkCache \<Rightarrow> occurrence list" where
  "itemOccurrences app bookFile source item =
     (case getFirstLinkpathDest app (link item) (path source) of
        None \<Rightarrow> []
      | Some dest \<Rightarrow>
          if path dest \<noteq> path bookFile then []
          else (case original item of
                  None \<Rightarrow> []
                | Some orig \<Rightarrow>
                    if orig = [] \<or> indexOf orig (js ''#cfi64='') = - 1 then []
                    else map (\<lambda>encoded. (encoded, source,
                                case displayText item of None \<Rightarrow> basename source | Some d \<Rightarrow> d))
                           (allMatches orig 0)))"

definition candidateOccurrences :: "App \<Rightarrow> TFile \<Rightarrow> TFile \<Rightarrow> occurrence list" where
  "candidateOccurrences app bookFile source =
     (case getFileCache app source of
        None \<Rightarrow> []
      | Some cache \<Rightarrow> concat (map (itemOccurrences app bookFile source) (cacheItems cache)))"

definition allOccurrences :: "App \<Rightarrow> TFile \<Rightarrow> occurrence list" where
  "allOccurrences app bookFile =
     concat (map (candidateOccurrences app bookFile)
       (coarseCandidates app (path bookFile) (resolvedLinks app)))"

fun collect :: "int \<Rightarrow> occurrence list \<Rightarrow> scan_state \<Rightarrow> scan_state flow" where
  "collect limit [] st = Next st"
| "collect limit ((encoded, source, disp) # occs) st =
     (case processMatch encoded source disp limit st of
        Return st' \<Rightarrow> Return st'
      | Next st' \<Rightarrow> collect limit occs st')"

fun firstOccurrences :: "jsstring set \<Rightarrow> occurrence list \<Rightarrow> occurrence list" where
  "firstOccurrences seen [] = []"
| "firstOccurrences seen ((encoded, x) # occs) =
     (if encoded \<in> seen then firstOccurrences seen occs
      else (encoded, x) # firstOccurrences (insert encoded seen) occs)"

definition descriptorOf :: "occurrence \<Rightarrow> BacklinkHighlight option" where
  "descriptorOf occ =
     (case occ of (encoded, source, disp) \<Rightarrow>
        (case base64UrlDecode encoded of
           Inl _ \<Rightarrow> None
         | Inr decoded \<Rightarrow> Some \<lparr>cfiRange = decoded, sourceFile = source, display = disp\<rparr>))"

definition resultsOf :: "scan_state flow \<Rightarrow> BacklinkHighlight list" where
  "resultsOf f = (case f of Next (seenEncoded, results) \<Rightarrow> results | Return (seenEncoded, results) \<Rightarrow> results)"

section \<open>The link parser (utils)\<close>

text \<open>
  \<^verbatim>\<open>decodeURIComponent\<close>, after the operation Decode of ECMAScript with an empty set of
  preserved escapes.  A \<^verbatim>\<open>%\<close> (code 37) must be followed by two hexadecimal digits; an
  octet with leading one bits starts a sequence of that many escaped octets, which must be
  the UTF-8 form of a code point; everything else throws \<^verbatim>\<open>URIError\<close>.
\<close>

definition hexDigit :: "nat \<Rightarrow> nat option" where
  "hexDigit c =
     (if 48 \<le> c \<and> c \<le> 57 then Some (c - 48)
      else if 65 \<le> c \<and> c \<le> 70 then Some (c - 55)
      else if 97 \<le> c \<and> c \<le> 102 then Some (c - 87)
      else None)"

fun escapeOctets :: "nat \<Rightarrow> jsstring \<Rightarrow> nat list option" where
  "escapeOctets 0 s = Some []"
| "escapeOctets (Suc n) (p # h # l # s) =
     (if p = 37 then
        (case (hexDigit h, hexDigit l, escapeOctets n s) of
           (Some a, Some b, Some octs) \<Rightarrow> Some ((16 * a + b) # octs)
         | _ \<Rightarrow> None)
      else None)"
| "escapeOctets (Suc n) s = None"

definition leadingOnes :: "nat \<Rightarrow> nat" where
  "leadingOnes b =
     (if b < 0x80 then 0 else if b < 0xC0 then 1 else if b < 0xE0 then 2
      else if b < 0xF0 then 3 else if b < 0xF8 then 4 else 5)"

fun decodeURIComponent :: "jsstring \<Rightarrow> js_error + jsstring" where
  "decodeURIComponent [] = Inr []"
| "decodeURIComponent (c # cs) =
     (if c \<noteq> 37 then
        (case decodeURIComponent cs of Inl e \<Rightarrow> Inl e | Inr r \<Rightarrow> Inr (c # r))
      else
        (case escapeOctets 1 (c # cs) of
           None \<Rightarrow> Inl URIError
         | Some first \<Rightarrow>
             (let b = hd first; n = leadingOnes b in
              if n = 0 then
                (case decodeURIComponent (drop 2 cs) of Inl e \<Rightarrow> Inl e | Inr r \<Rightarrow> Inr (b # r))
              else if n = 1 \<or> 4 < n then Inl URIError
              else
                (case escapeOctets (n - 1) (drop 2 cs) of
                   None \<Rightarrow> Inl URIError
                 | Some others \<Rightarrow>
                     (case utf8Decode 0 0 0 0x80 0xBF (b # others) of
                        [Some cp] \<Rightarrow>
                          (case decodeURIComponent (drop (2 + 3 * (n - 1)) cs) of
                             Inl e \<Rightarrow> Inl e
                           | Inr r \<Rightarrow> Inr (utf16Encode cp @ r))
                      | _ \<Rightarrow> Inl URIError)))))"

text \<open>\<^verbatim>\<open>s.endsWith(p)\<close>, and \<^verbatim>\<open>raw.split("#", 2)\<close> read as \<^verbatim>\<open>[pathPartRaw, hashRaw]\<close>: the
  text before the first \<^verbatim>\<open>#\<close> (code 35), and the text between the first and the second
  one, undefined when there is no \<^verbatim>\<open>#\<close>.\<close>

definition endsWith :: "jsstring \<Rightarrow> jsstring \<Rightarrow> bool" where
  "endsWith s p = (length p \<le> length s \<and> drop (length s - length p) s = p)"

definition split2 :: "jsstring \<Rightarrow> jsstring \<times> jsstring option" where
  "split2 raw =
     (takeWhile (\<lambda>c. c \<noteq> 35) raw,
      case dropWhile (\<lambda>c. c \<noteq> 35) raw of
        [] \<Rightarrow> None
      | h # rest \<Rightarrow> Some (takeWhile (\<lambda>c. c \<noteq> 35) rest))"

text \<open>
  \<^verbatim>\<open>parseEpubCfi64Link\<close>.  The platform's \<^verbatim>\<open>new URL(raw)\<close> is a parameter: \<open>None\<close> when
  it throws, else \<^verbatim>\<open>searchParams.get("file")\<close> (null or a string) and \<^verbatim>\<open>hash\<close>;
  \<^verbatim>\<open>toLowerCase\<close> and Obsidian's \<^verbatim>\<open>normalizePath\<close> are parameters too.  The block for
  \<^verbatim>\<open>obsidian://\<close> links is inside \<^verbatim>\<open>try\<close> with an empty \<^verbatim>\<open>catch\<close>: when anything in it
  throws, \<^verbatim>\<open>raw\<close> is unchanged.  The call \<^verbatim>\<open>decodeURIComponent(pathPartRaw)\<close> is outside
  of it.  The result is \<open>Inl\<close> for an exception, \<open>Inr None\<close> for null, and
  \<open>Inr (Some (path, cfi64))\<close>.
\<close>

definition obsidianRaw :: "(jsstring \<Rightarrow> (jsstring option \<times> jsstring) option) \<Rightarrow> jsstring \<Rightarrow> jsstring" where
  "obsidianRaw newURL raw =
     (if startsWith raw (js ''obsidian://'') then
        (case newURL raw of
           None \<Rightarrow> raw
         | Some (file, hash) \<Rightarrow>
             (case file of
                None \<Rightarrow> raw
              | Some fileParam \<Rightarrow>
                  if fileParam = [] then raw
                  else (case decodeURIComponent fileParam of
                          Inl e \<Rightarrow> raw
                        | Inr decoded \<Rightarrow> decoded @ hash)))
      else raw)"

definition parseEpubCfi64Link ::
    "(jsstring \<Rightarrow> (jsstring option \<times> jsstring) option) \<Rightarrow> (jsstring \<Rightarrow> jsstring) \<Rightarrow>
     (jsstring \<Rightarrow> jsstring) \<Rightarrow> jsstring \<Rightarrow> js_error + (jsstring \<times> jsstring) option" where
  "parseEpubCfi64Link newURL toLowerCase normalizePath hrefOrDataHref =
     (if hrefOrDataHref = [] then Inr None
      else
        (let raw = obsidianRaw newURL hrefOrDataHref in
         case split2 raw of (pathPartRaw, hashRaw) \<Rightarrow>
           (case decodeURIComponent pathPartRaw of
              Inl e \<Rightarrow> Inl e
            | Inr pathPart \<Rightarrow>
                if \<not> endsWith (toLowerCase pathPart) (js ''.epub'') then Inr None
                else (case hashRaw of
                        None \<Rightarrow> Inr None
                      | Some h \<Rightarrow>
                          if h = [] then Inr None
                          else (case regexSearch (js ''cfi64='') h of
                                  None \<Rightarrow> Inr None
                                | Some (e, m) \<Rightarrow> Inr (Some (normalizePath pathPart, m)))))))"

section \<open>The jump entry of the view (EpubView)\<close>

text \<open>
  \<^verbatim>\<open>handleJumpFromCfi64(encoded)\<close>: inside \<^verbatim>\<open>try\<close>, the decoded token is stored in
  \<^verbatim>\<open>this.jumpCfiRange\<close> and the reader is rendered again; the \<^verbatim>\<open>catch\<close> is empty.
  \<^verbatim>\<open>renderReader\<close> is a parameter; \<open>None\<close> says that it throws.
\<close>

record EpubView =
  jumpCfiRange :: "jsstring option"

definition handleJumpFromCfi64 ::
    "(EpubView \<Rightarrow> EpubView option) \<Rightarrow> EpubView \<Rightarrow> jsstring \<Rightarrow> EpubView" where
  "handleJumpFromCfi64 renderReader view encoded =
     (case base64UrlDecode encoded of
        Inl e \<Rightarrow> view
      | Inr decoded \<Rightarrow>
          (case renderReader (view\<lparr>jumpCfiRange := Some decoded\<rparr>) of
             None \<Rightarrow> view\<lparr>jumpCfiRange := Some decoded\<rparr>
           | Some view' \<Rightarrow> view'))"

section \<open>Example values\<close>

text \<open>
  Concrete notes, stores, renditions, readers and highlight lists for the instances below.
  The example rendition removes one annotation of a range it can render and throws on
  the others.
\<close>

definition exampleNote :: "string \<Rightarrow> TFile" where
  "exampleNote name = \<lparr>path = js name @ js ''.md'', basename = js name\<rparr>"

definition exampleStore :: "string \<Rightarrow> string \<Rightarrow> EpubPlugin" where
  "exampleStore book other =
     \<lparr>progress = [(js book, Stored \<lparr>location = LocNumber 42, updatedAt = 1\<rparr>),
                  (js other, Stored \<lparr>location = LocNumber 3, updatedAt = 2\<rparr>)],
      saveTimer = False\<rparr>"

definition exampleRendition :: "(jsstring \<Rightarrow> bool) \<Rightarrow> (jsstring \<Rightarrow> bool) \<Rightarrow> Rendition" where
  "exampleRendition accepts valid =
     \<lparr>display_resolves = accepts, display_log = [], displayed = None, valid_range = valid,
      marks = [],
      remove_marks = (\<lambda>cfi present. if valid cfi then Some (remove1 cfi present) else None)\<rparr>"

definition exampleReader :: "Rendition \<Rightarrow> EpubReader" where
  "exampleReader r = \<lparr>renditionRef = Some r, pendingJumpRef = None, addedBacklinkCfisRef = []\<rparr>"


text \<open>
  A vault for the resolver: each note \<open>name\<close> holds one link to the book
  \<^verbatim>\<open>Books/Book.epub\<close> with the given token and the note's name as label.  The two tokens
  are the codes of \<^verbatim>\<open>epubcfi(/6/4)\<close> and \<^verbatim>\<open>epubcfi(/6/8)\<close>.
\<close>

definition exampleBook :: TFile where
  "exampleBook = \<lparr>path = js ''Books/Book.epub'', basename = js ''Book''\<rparr>"

definition exampleLink :: "string \<Rightarrow> string \<Rightarrow> LinkCache" where
  "exampleLink token label =
     \<lparr>link = js ''Books/Book.epub#cfi64='' @ js token,
      original = Some (js ''[[Books/Book.epub#cfi64='' @ js token @ js ''|'' @ js label @ js '']]''),
      displayText = Some (js label)\<rparr>"

definition exampleApp :: "(string \<times> string) list \<Rightarrow> App" where
  "exampleApp notes =
     \<lparr>resolvedLinks =
        map (\<lambda>(name, token). (js name @ js ''.md'', Some [(js ''Books/Book.epub'', 1)])) notes,
      getAbstractFileByPath =
        (\<lambda>p. map_option (\<lambda>(name, token). File (exampleNote name))
               (find (\<lambda>(name, token). js name @ js ''.md'' = p) notes)),
      getFileCache =
        (\<lambda>f. map_option (\<lambda>(name, token). \<lparr>links = Some [exampleLink token name], embeds = None\<rparr>)
               (find (\<lambda>(name, token). js name @ js ''.md'' = path f) notes)),
      getFirstLinkpathDest =
        (\<lambda>l src. if startsWith l (js ''Books/Book.epub'') then Some exampleBook else None)\<rparr>"

definition token4 :: string where
  "token4 = ''ZXB1YmNmaSgvNi80KQ''"

definition token8 :: string where
  "token8 = ''ZXB1YmNmaSgvNi84KQ''"

section \<open>Properties of the progress store\<close>

lemma progress_requestSave: "progress (requestSave p) = progress p"
  by (simp add: requestSave_def)

lemma saveTimer_requestSave: "saveTimer (requestSave p)"
  by (simp add: requestSave_def)

lemma getProperty_own: "map_of obj key = Some v \<Longrightarrow> getProperty obj key = Some v"
  by (simp add: getProperty_def)

lemma getProperty_None: "getProperty obj key = None \<Longrightarrow> map_of obj key = None"
  by (simp add: getProperty_def split: option.splits)

lemma js_slash: "js ''/'' = [47]"
  by (simp add: js_def)

lemma onRename_file_map:
  "map_of (progress (onRename np st (File f) oldPath)) k =
     (if k = normalizeProgressKey np oldPath then None
      else if k = normalizeProgressKey np (path f) \<and>
              getProperty (progress st) (normalizeProgressKey np (path f)) = None
           then getProperty (progress st) (normalizeProgressKey np oldPath)
      else map_of (progress st) k)"
proof (cases "getProperty (progress st) (normalizeProgressKey np oldPath)")
  case None
  then have same: "onRename np st (File f) oldPath = st"
    by (simp add: onRename_def Let_def)
  from None have "map_of (progress st) (normalizeProgressKey np oldPath) = None"
    by (rule getProperty_None)
  with None show ?thesis
    unfolding same by (auto dest: getProperty_None)
next
  case old: (Some v)
  show ?thesis
  proof (cases "getProperty (progress st) (normalizeProgressKey np (path f))")
    case None
    with old have ne: "normalizeProgressKey np (path f) \<noteq> normalizeProgressKey np oldPath"
      by auto
    have still: "getProperty (AList.update (normalizeProgressKey np (path f)) v (progress st))
        (normalizeProgressKey np oldPath) = Some v"
      using old ne by (simp add: getProperty_def update_conv')
    have "progress (onRename np st (File f) oldPath) =
        AList.delete (normalizeProgressKey np oldPath)
          (AList.update (normalizeProgressKey np (path f)) v (progress st))"
      using old None still by (simp add: onRename_def Let_def progress_requestSave)
    then show ?thesis
      using old None ne by (simp add: update_conv' delete_conv')
  next
    case (Some v')
    have "progress (onRename np st (File f) oldPath) =
        AList.delete (normalizeProgressKey np oldPath) (progress st)"
      using old Some by (simp add: onRename_def Let_def progress_requestSave)
    then show ?thesis
      using Some by (simp add: delete_conv')
  qed
qed

lemma onRename_file_saves:
  assumes "getProperty (progress st) (normalizeProgressKey np oldPath) = Some v"
  shows "saveTimer (onRename np st (File f) oldPath)"
proof (cases "getProperty (progress st) (normalizeProgressKey np (path f))")
  case None
  with assms have ne: "normalizeProgressKey np (path f) \<noteq> normalizeProgressKey np oldPath"
    by auto
  have "getProperty (AList.update (normalizeProgressKey np (path f)) v (progress st))
      (normalizeProgressKey np oldPath) = Some v"
    using assms ne by (simp add: getProperty_def update_conv')
  then show ?thesis
    using assms None by (simp add: onRename_def Let_def saveTimer_requestSave)
next
  case (Some v')
  then show ?thesis
    using assms by (simp add: onRename_def Let_def saveTimer_requestSave)
qed

text \<open>
  Claim C10.  After \<open>setProgress p loc\<close>, \<open>getProgress q\<close> returns \<open>loc\<close> for every
  path \<open>q\<close> that normalizes to the key of \<open>p\<close>, and the record stored under every other
  key is the one stored before.
\<close>

theorem setProgress_getProgress_roundtrip:
  "(normalizeProgressKey np q = normalizeProgressKey np p \<longrightarrow>
      getProgress np (setProgress np now st p loc) q = Some loc) \<and>
   (k \<noteq> normalizeProgressKey np p \<longrightarrow>
      map_of (progress (setProgress np now st p loc)) k = map_of (progress st) k)"
  by (simp add: getProgress_def setProgress_def progress_requestSave update_conv' getProperty_def)

theorem setProgress_getProgress_roundtrip_witness:
  "getProgress (map (\<lambda>c. if c = 92 then 47 else c))
     (setProgress (map (\<lambda>c. if c = 92 then 47 else c)) 7
        \<lparr>progress = [(js ''B.epub'', Stored \<lparr>location = LocNumber 3, updatedAt = 1\<rparr>)], saveTimer = False\<rparr>
        (js ''A/Book.epub'') (LocNumber 42))
     [65, 92, 66, 111, 111, 107, 46, 101, 112, 117, 98] = Some (LocNumber 42) \<and>
   map_of (progress (setProgress (map (\<lambda>c. if c = 92 then 47 else c)) 7
        \<lparr>progress = [(js ''B.epub'', Stored \<lparr>location = LocNumber 3, updatedAt = 1\<rparr>)], saveTimer = False\<rparr>
        (js ''A/Book.epub'') (LocNumber 42))) (js ''B.epub'')
     = Some (Stored \<lparr>location = LocNumber 3, updatedAt = 1\<rparr>)"
  using setProgress_getProgress_roundtrip
    [of "map (\<lambda>c. if c = 92 then 47 else c)"
        "[65, 92, 66, 111, 111, 107, 46, 101, 112, 117, 98]" "js ''A/Book.epub''" 7
        "\<lparr>progress = [(js ''B.epub'', Stored \<lparr>location = LocNumber 3, updatedAt = 1\<rparr>)], saveTimer = False\<rparr>"
        "LocNumber 42" "js ''B.epub''"]
  by (simp add: normalizeProgressKey_def js_def)

text \<open>
  Claim C5 (as amended).  Renaming a single file, with the keys \<open>normalize(oldPath)\<close> and
  \<open>normalize(newPath)\<close>: a record at the old key is copied to the new key when the read
  \<^verbatim>\<open>progress[newKey]\<close> finds nothing (no own entry, and not a name every object
  inherits); the old key holds no entry afterwards in any case, and a save is requested
  when it held one; when the new key is another key and is occupied, its record stays and
  the old record is lost; no other key changes.  When both paths normalize to one key the
  second conjunct says that the record is deleted.
\<close>

theorem onRename_file_migrates:
  "(map_of (progress st) (normalizeProgressKey np oldPath) = Some v \<and>
      getProperty (progress st) (normalizeProgressKey np (path f)) = None \<longrightarrow>
      map_of (progress (onRename np st (File f) oldPath)) (normalizeProgressKey np (path f)) = Some v) \<and>
   map_of (progress (onRename np st (File f) oldPath)) (normalizeProgressKey np oldPath) = None \<and>
   (map_of (progress st) (normalizeProgressKey np oldPath) = Some v \<longrightarrow>
      saveTimer (onRename np st (File f) oldPath)) \<and>
   (map_of (progress st) (normalizeProgressKey np oldPath) = Some v \<and>
      map_of (progress st) (normalizeProgressKey np (path f)) = Some v' \<and>
      normalizeProgressKey np (path f) \<noteq> normalizeProgressKey np oldPath \<longrightarrow>
      map_of (progress (onRename np st (File f) oldPath)) (normalizeProgressKey np (path f)) = Some v') \<and>
   (k \<noteq> normalizeProgressKey np oldPath \<and> k \<noteq> normalizeProgressKey np (path f) \<longrightarrow>
      map_of (progress (onRename np st (File f) oldPath)) k = map_of (progress st) k)"
proof (intro conjI impI)
  assume a: "map_of (progress st) (normalizeProgressKey np oldPath) = Some v \<and>
      getProperty (progress st) (normalizeProgressKey np (path f)) = None"
  then have "getProperty (progress st) (normalizeProgressKey np oldPath) = Some v"
    by (simp add: getProperty_own)
  moreover from a have "normalizeProgressKey np (path f) \<noteq> normalizeProgressKey np oldPath"
    by (auto dest: getProperty_None)
  ultimately show "map_of (progress (onRename np st (File f) oldPath))
      (normalizeProgressKey np (path f)) = Some v"
    using a by (simp add: onRename_file_map)
next
  show "map_of (progress (onRename np st (File f) oldPath)) (normalizeProgressKey np oldPath) = None"
    by (simp add: onRename_file_map)
next
  assume "map_of (progress st) (normalizeProgressKey np oldPath) = Some v"
  then have "getProperty (progress st) (normalizeProgressKey np oldPath) = Some v"
    by (rule getProperty_own)
  then show "saveTimer (onRename np st (File f) oldPath)"
    by (rule onRename_file_saves)
next
  assume a: "map_of (progress st) (normalizeProgressKey np oldPath) = Some v \<and>
      map_of (progress st) (normalizeProgressKey np (path f)) = Some v' \<and>
      normalizeProgressKey np (path f) \<noteq> normalizeProgressKey np oldPath"
  then have "getProperty (progress st) (normalizeProgressKey np (path f)) = Some v'"
    by (simp add: getProperty_own)
  then show "map_of (progress (onRename np st (File f) oldPath))
      (normalizeProgressKey np (path f)) = Some v'"
    using a by (simp add: onRename_file_map)
next
  assume "k \<noteq> normalizeProgressKey np oldPath \<and> k \<noteq> normalizeProgressKey np (path f)"
  then show "map_of (progress (onRename np st (File f) oldPath)) k = map_of (progress st) k"
    by (simp add: onRename_file_map)
qed

theorem onRename_file_migrates_witness:
  "map_of (progress (onRename (\<lambda>p. p) (exampleStore ''A/Book.epub'' ''C.epub'')
       (File \<lparr>path = js ''B/Book.epub'', basename = js ''Book''\<rparr>) (js ''A/Book.epub'')))
     (js ''B/Book.epub'') = Some (Stored \<lparr>location = LocNumber 42, updatedAt = 1\<rparr>) \<and>
   map_of (progress (onRename (\<lambda>p. p) (exampleStore ''A/Book.epub'' ''C.epub'')
       (File \<lparr>path = js ''B/Book.epub'', basename = js ''Book''\<rparr>) (js ''A/Book.epub'')))
     (js ''A/Book.epub'') = None \<and>
   saveTimer (onRename (\<lambda>p. p) (exampleStore ''A/Book.epub'' ''C.epub'')
       (File \<lparr>path = js ''B/Book.epub'', basename = js ''Book''\<rparr>) (js ''A/Book.epub'')) \<and>
   map_of (progress (onRename (\<lambda>p. p) (exampleStore ''A/Book.epub'' ''C.epub'')
       (File \<lparr>path = js ''B/Book.epub'', basename = js ''Book''\<rparr>) (js ''A/Book.epub'')))
     (js ''C.epub'') = Some (Stored \<lparr>location = LocNumber 3, updatedAt = 2\<rparr>) \<and>
   map_of (progress (onRename (\<lambda>p. p) (exampleStore ''A/Book.epub'' ''C.epub'')
       (File \<lparr>path = js ''C.epub'', basename = js ''C''\<rparr>) (js ''A/Book.epub'')))
     (js ''C.epub'') = Some (Stored \<lparr>location = LocNumber 3, updatedAt = 2\<rparr>)"
  using onRename_file_migrates
    [of "exampleStore ''A/Book.epub'' ''C.epub''" "\<lambda>p. p" "js ''A/Book.epub''"
        "Stored \<lparr>location = LocNumber 42, updatedAt = 1\<rparr>"
        "\<lparr>path = js ''B/Book.epub'', basename = js ''Book''\<rparr>"
        "Stored \<lparr>location = LocNumber 3, updatedAt = 2\<rparr>" "js ''C.epub''"]
    onRename_file_migrates
    [of "exampleStore ''A/Book.epub'' ''C.epub''" "\<lambda>p. p" "js ''A/Book.epub''"
        "Stored \<lparr>location = LocNumber 42, updatedAt = 1\<rparr>"
        "\<lparr>path = js ''C.epub'', basename = js ''C''\<rparr>"
        "Stored \<lparr>location = LocNumber 3, updatedAt = 2\<rparr>" "js ''C.epub''"]
  by (simp add: normalizeProgressKey_def exampleStore_def getProperty_def objectPrototypeNames_def
      js_def)

text \<open>
  The claim as stated fails in two places.  A record is not copied to a new key that is a
  name every object inherits, although no record exists there: the store is empty after
  renaming \<^verbatim>\<open>A.epub\<close> to \<^verbatim>\<open>constructor\<close>.  And when both paths normalize to one key
  (here a no-break space, which \<^verbatim>\<open>normalizePath\<close> turns into a space) the copy is
  skipped and the only record is deleted, so no destination record is kept.
\<close>

theorem onRename_file_loses_record:
  "map_of (progress (exampleStore ''A.epub'' ''C.epub'')) (js ''constructor'') = None \<and>
   progress (onRename (\<lambda>p. p) (exampleStore ''A.epub'' ''C.epub'')
       (File \<lparr>path = js ''constructor'', basename = js ''constructor''\<rparr>) (js ''A.epub''))
     = [(js ''C.epub'', Stored \<lparr>location = LocNumber 3, updatedAt = 2\<rparr>)] \<and>
   progress (onRename (map (\<lambda>c. if c = 160 then 32 else c)) (exampleStore ''My Book.epub'' ''C.epub'')
       (File \<lparr>path = js ''My Book.epub'', basename = js ''My Book''\<rparr>)
       [77, 121, 160, 66, 111, 111, 107, 46, 101, 112, 117, 98])
     = [(js ''C.epub'', Stored \<lparr>location = LocNumber 3, updatedAt = 2\<rparr>)]"
  by (simp add: onRename_def normalizeProgressKey_def exampleStore_def getProperty_def
      objectPrototypeNames_def requestSave_def js_def)

section \<open>Highlight reconciliation\<close>












section \<open>The jump controller\<close>

lemma lazyUntilComma_Some: "lazyUntilComma cs = Some m \<Longrightarrow> \<exists>rest. cs = m @ 44 # rest"
  by (induction cs arbitrary: m) (auto split: if_splits)

lemma getRangeStartCfi_Some:
  assumes "getRangeStartCfi cfi = Some fb"
  shows "fb \<noteq> [] \<and> cfi \<noteq> [] \<and> fb \<noteq> cfi"
proof -
  from assms have sw: "startsWith cfi (js ''epubcfi('')"
    by (auto simp: getRangeStartCfi_def split: if_splits)
  from assms sw obtain c cs m where d: "drop 8 cfi = c # cs" and l: "lazyUntilComma cs = Some m"
    and fb: "fb = js ''epubcfi('' @ (c # m) @ js '')''"
    by (auto simp: getRangeStartCfi_def split: if_splits list.splits option.splits)
  from l obtain rest where cs: "cs = m @ 44 # rest"
    using lazyUntilComma_Some by blast
  have "cfi = take 8 cfi @ drop 8 cfi" by simp
  also have "take 8 cfi = js ''epubcfi(''"
  proof -
    have "length (js ''epubcfi('') = 8" by (simp add: js_def)
    then show ?thesis using sw unfolding startsWith_def by simp
  qed
  finally have cfi: "cfi = js ''epubcfi('' @ c # m @ 44 # rest"
    using d cs by simp
  have "fb \<noteq> cfi"
  proof
    assume "fb = cfi"
    then have "js ''epubcfi('' @ (c # m) @ js '')'' = js ''epubcfi('' @ c # m @ 44 # rest"
      using fb cfi by simp
    then show False by (simp add: js_def)
  qed
  moreover have "fb \<noteq> []" using fb by simp
  moreover have "cfi \<noteq> []" using cfi by simp
  ultimately show ?thesis by simp
qed

lemma displayJumpCfi_pending:
  "pendingJumpRef (fst (displayJumpCfi st cfi)) = pendingJumpRef st"
  by (auto simp: displayJumpCfi_def tryDisplayCfi_def rendition_display_def
      split: option.splits prod.splits bool.splits if_splits)

lemma displayJumpCfi_set_pending:
  "displayJumpCfi (st\<lparr>pendingJumpRef := x\<rparr>) cfi =
     ((fst (displayJumpCfi st cfi))\<lparr>pendingJumpRef := x\<rparr>, snd (displayJumpCfi st cfi))"
  by (auto simp: displayJumpCfi_def tryDisplayCfi_def rendition_display_def
      split: option.splits prod.splits bool.splits if_splits)

lemma displayJumpCfi_attempts:
  "renditionRef st = Some r \<Longrightarrow>
     take (Suc (length (display_log r))) (displayAttempts (fst (displayJumpCfi st cfi))) =
       display_log r @ [cfi]"
  by (auto simp: displayJumpCfi_def tryDisplayCfi_def rendition_display_def displayAttempts_def
      split: option.splits prod.splits bool.splits if_splits)

lemma displayJumpCfi_result:
  assumes "renditionRef st = Some r"
  shows "snd (displayJumpCfi st cfi) =
     (display_resolves r cfi \<or> (\<exists>fb. getRangeStartCfi cfi = Some fb \<and> display_resolves r fb))"
proof (cases "display_resolves r cfi")
  case True
  then show ?thesis
    using assms by (simp add: displayJumpCfi_def tryDisplayCfi_def rendition_display_def)
next
  case rej: False
  show ?thesis
  proof (cases "getRangeStartCfi cfi")
    case None
    then show ?thesis
      using assms rej by (simp add: displayJumpCfi_def tryDisplayCfi_def rendition_display_def)
  next
    case (Some fb)
    then have "fb \<noteq> []" "fb \<noteq> cfi"
      using getRangeStartCfi_Some by blast+
    then show ?thesis
      using assms rej Some
      by (simp add: displayJumpCfi_def tryDisplayCfi_def rendition_display_def)
  qed
qed

lemma displayJumpCfi_no_rendition:
  "renditionRef st = None \<Longrightarrow> displayJumpCfi st cfi = (st, False)"
  by (simp add: displayJumpCfi_def)

lemma jumpEffect_eq:
  assumes "cfi \<noteq> []"
  shows "jumpEffect st (Some cfi) =
     (fst (displayJumpCfi st cfi))
       \<lparr>pendingJumpRef := if snd (displayJumpCfi st cfi) then None else Some cfi\<rparr>"
  using assms by (simp add: jumpEffect_def displayJumpCfi_set_pending)

lemma getRendition_pending:
  assumes "cfi \<noteq> []" and "pendingJumpRef st = Some cfi"
  shows "getRendition st r' =
     (fst (displayJumpCfi (st\<lparr>renditionRef := Some r', addedBacklinkCfisRef := []\<rparr>) cfi))
       \<lparr>pendingJumpRef :=
          if display_resolves r' cfi \<or> (\<exists>fb. getRangeStartCfi cfi = Some fb \<and> display_resolves r' fb)
          then None else Some cfi\<rparr>"
proof -
  define st0 where "st0 = st\<lparr>renditionRef := Some r', addedBacklinkCfisRef := []\<rparr>"
  have p0: "pendingJumpRef st0 = Some cfi" and r0: "renditionRef st0 = Some r'"
    using assms(2) by (simp_all add: st0_def)
  have keep: "pendingJumpRef (fst (displayJumpCfi st0 cfi)) = Some cfi"
    by (simp add: displayJumpCfi_pending p0)
  have "getRendition st r' =
      (if snd (displayJumpCfi st0 cfi) then (fst (displayJumpCfi st0 cfi))\<lparr>pendingJumpRef := None\<rparr>
       else fst (displayJumpCfi st0 cfi))"
    using assms(1) p0 by (simp add: getRendition_def st0_def [symmetric] Let_def split: prod.splits)
  also have "\<dots> = (fst (displayJumpCfi st0 cfi))
      \<lparr>pendingJumpRef := if snd (displayJumpCfi st0 cfi) then None else Some cfi\<rparr>"
    using keep by (cases "fst (displayJumpCfi st0 cfi)") auto
  finally have g: "getRendition st r' = (fst (displayJumpCfi st0 cfi))
      \<lparr>pendingJumpRef := if snd (displayJumpCfi st0 cfi) then None else Some cfi\<rparr>" .
  have res: "snd (displayJumpCfi st0 cfi) =
      (display_resolves r' cfi \<or> (\<exists>fb. getRangeStartCfi cfi = Some fb \<and> display_resolves r' fb))"
    by (rule displayJumpCfi_result [OF r0])
  show ?thesis
    using g res by (simp add: st0_def)
qed

text \<open>
  Claim C3 (as amended).  A jump request is cleared exactly when an attempt to display it
  succeeds, at both places that make an attempt.  When \<open>displayJumpCfi\<close> reports success
  (the rendition accepts the range, or its start anchor) the effect on \<^verbatim>\<open>jumpCfiRange\<close>
  clears the pending jump, and a rendition delivered later is only stored: the request is
  not retried.  When it reports failure (no rendition yet, or every attempt rejected) the
  request stays pending, and the next \<open>getRendition\<close> starts by displaying it again.
  \<open>getRendition\<close> with a pending request clears it if the delivered rendition accepts
  the range or its start anchor and keeps it otherwise; with no pending request it makes
  no display call.
\<close>

theorem jump_cleared_only_on_success:
  assumes "cfi \<noteq> []"
  shows "(snd (displayJumpCfi st cfi) \<longrightarrow>
            pendingJumpRef (jumpEffect st (Some cfi)) = None \<and>
            getRendition (jumpEffect st (Some cfi)) r' =
              (jumpEffect st (Some cfi))\<lparr>renditionRef := Some r', addedBacklinkCfisRef := []\<rparr>) \<and>
         (\<not> snd (displayJumpCfi st cfi) \<longrightarrow>
            pendingJumpRef (jumpEffect st (Some cfi)) = Some cfi \<and>
            take (Suc (length (display_log r')))
              (displayAttempts (getRendition (jumpEffect st (Some cfi)) r')) = display_log r' @ [cfi]) \<and>
         (renditionRef st = None \<longrightarrow> \<not> snd (displayJumpCfi st cfi)) \<and>
         (renditionRef st = Some r \<longrightarrow>
            snd (displayJumpCfi st cfi) =
              (display_resolves r cfi \<or> (\<exists>fb. getRangeStartCfi cfi = Some fb \<and> display_resolves r fb))) \<and>
         (pendingJumpRef st = Some cfi \<longrightarrow>
            pendingJumpRef (getRendition st r') =
              (if display_resolves r' cfi \<or> (\<exists>fb. getRangeStartCfi cfi = Some fb \<and> display_resolves r' fb)
               then None else Some cfi) \<and>
            take (Suc (length (display_log r'))) (displayAttempts (getRendition st r')) =
              display_log r' @ [cfi]) \<and>
         (pendingJumpRef st = None \<longrightarrow>
            getRendition st r' = st\<lparr>renditionRef := Some r', addedBacklinkCfisRef := []\<rparr>)"
proof (intro conjI impI)
  assume ok: "snd (displayJumpCfi st cfi)"
  then have je: "jumpEffect st (Some cfi) = (fst (displayJumpCfi st cfi))\<lparr>pendingJumpRef := None\<rparr>"
    using assms by (simp add: jumpEffect_eq)
  show "pendingJumpRef (jumpEffect st (Some cfi)) = None"
    by (simp add: je)
  show "getRendition (jumpEffect st (Some cfi)) r' =
      (jumpEffect st (Some cfi))\<lparr>renditionRef := Some r', addedBacklinkCfisRef := []\<rparr>"
    by (simp add: je getRendition_def)
next
  assume "\<not> snd (displayJumpCfi st cfi)"
  then have je: "jumpEffect st (Some cfi) = (fst (displayJumpCfi st cfi))\<lparr>pendingJumpRef := Some cfi\<rparr>"
    using assms by (simp add: jumpEffect_eq)
  show p: "pendingJumpRef (jumpEffect st (Some cfi)) = Some cfi"
    by (simp add: je)
  have "renditionRef ((jumpEffect st (Some cfi))\<lparr>renditionRef := Some r', addedBacklinkCfisRef := []\<rparr>)
      = Some r'"
    by simp
  from displayJumpCfi_attempts [OF this, of cfi]
  show "take (Suc (length (display_log r')))
      (displayAttempts (getRendition (jumpEffect st (Some cfi)) r')) = display_log r' @ [cfi]"
    unfolding getRendition_pending [OF assms p] by (simp add: displayAttempts_def)
next
  assume "renditionRef st = None"
  then show "\<not> snd (displayJumpCfi st cfi)"
    by (simp add: displayJumpCfi_no_rendition)
next
  assume "renditionRef st = Some r"
  then show "snd (displayJumpCfi st cfi) =
      (display_resolves r cfi \<or> (\<exists>fb. getRangeStartCfi cfi = Some fb \<and> display_resolves r fb))"
    by (rule displayJumpCfi_result)
next
  assume p: "pendingJumpRef st = Some cfi"
  show "pendingJumpRef (getRendition st r') =
      (if display_resolves r' cfi \<or> (\<exists>fb. getRangeStartCfi cfi = Some fb \<and> display_resolves r' fb)
       then None else Some cfi)"
    unfolding getRendition_pending [OF assms p] by simp
  have "renditionRef (st\<lparr>renditionRef := Some r', addedBacklinkCfisRef := []\<rparr>) = Some r'"
    by simp
  from displayJumpCfi_attempts [OF this, of cfi]
  show "take (Suc (length (display_log r'))) (displayAttempts (getRendition st r')) =
      display_log r' @ [cfi]"
    unfolding getRendition_pending [OF assms p] by (simp add: displayAttempts_def)
next
  assume "pendingJumpRef st = None"
  then show "getRendition st r' = st\<lparr>renditionRef := Some r', addedBacklinkCfisRef := []\<rparr>"
    by (simp add: getRendition_def)
qed

text \<open>
  Claim C4 (as amended).  With a rendition that rejects the range itself: if it accepts the
  start anchor, the jump makes the two display calls, shows the start anchor and clears the
  pending jump; if there is no start anchor (or it is the range itself) the fallback is
  skipped: one display call, nothing shown, failure reported; if the start anchor is
  rejected too, two display calls were made, nothing is shown and the request stays
  pending.
\<close>

theorem jump_fallback:
  assumes r: "renditionRef st = Some r" and rej: "\<not> display_resolves r cfi"
  shows "(getRangeStartCfi cfi = Some fb \<and> display_resolves r fb \<longrightarrow>
            shown (jumpEffect st (Some cfi)) = Some fb \<and>
            pendingJumpRef (jumpEffect st (Some cfi)) = None \<and>
            displayAttempts (jumpEffect st (Some cfi)) = display_log r @ [cfi, fb]) \<and>
         (getRangeStartCfi cfi = None \<or> getRangeStartCfi cfi = Some cfi \<longrightarrow>
            \<not> snd (displayJumpCfi st cfi) \<and>
            displayAttempts (fst (displayJumpCfi st cfi)) = display_log r @ [cfi] \<and>
            shown (fst (displayJumpCfi st cfi)) = displayed r) \<and>
         (getRangeStartCfi cfi = Some fb \<and> \<not> display_resolves r fb \<longrightarrow>
            \<not> snd (displayJumpCfi st cfi) \<and>
            displayAttempts (jumpEffect st (Some cfi)) = display_log r @ [cfi, fb] \<and>
            shown (jumpEffect st (Some cfi)) = displayed r \<and>
            pendingJumpRef (jumpEffect st (Some cfi)) = Some cfi)"
proof (intro conjI impI)
  assume a: "getRangeStartCfi cfi = Some fb \<and> display_resolves r fb"
  then have ne: "fb \<noteq> []" "cfi \<noteq> []" "fb \<noteq> cfi"
    using getRangeStartCfi_Some by blast+
  have d: "displayJumpCfi st cfi =
      (st\<lparr>renditionRef := Some (r\<lparr>display_log := display_log r @ [cfi, fb], displayed := Some fb\<rparr>)\<rparr>, True)"
    using a r rej ne by (simp add: displayJumpCfi_def tryDisplayCfi_def rendition_display_def)
  have je: "jumpEffect st (Some cfi) = (fst (displayJumpCfi st cfi))\<lparr>pendingJumpRef := None\<rparr>"
    using ne d by (simp add: jumpEffect_def displayJumpCfi_set_pending)
  show "shown (jumpEffect st (Some cfi)) = Some fb"
    and "pendingJumpRef (jumpEffect st (Some cfi)) = None"
    and "displayAttempts (jumpEffect st (Some cfi)) = display_log r @ [cfi, fb]"
    by (simp_all add: je d shown_def displayAttempts_def)
next
  assume a: "getRangeStartCfi cfi = None \<or> getRangeStartCfi cfi = Some cfi"
  have d: "displayJumpCfi st cfi =
      (st\<lparr>renditionRef := Some (r\<lparr>display_log := display_log r @ [cfi]\<rparr>)\<rparr>, False)"
    using a r rej by (auto simp: displayJumpCfi_def tryDisplayCfi_def rendition_display_def)
  show "\<not> snd (displayJumpCfi st cfi)"
    and "displayAttempts (fst (displayJumpCfi st cfi)) = display_log r @ [cfi]"
    and "shown (fst (displayJumpCfi st cfi)) = displayed r"
    by (simp_all add: d shown_def displayAttempts_def)
next
  assume a: "getRangeStartCfi cfi = Some fb \<and> \<not> display_resolves r fb"
  then have ne: "fb \<noteq> []" "cfi \<noteq> []" "fb \<noteq> cfi"
    using getRangeStartCfi_Some by blast+
  have d: "displayJumpCfi st cfi =
      (st\<lparr>renditionRef := Some (r\<lparr>display_log := display_log r @ [cfi, fb]\<rparr>)\<rparr>, False)"
    using a r rej ne by (simp add: displayJumpCfi_def tryDisplayCfi_def rendition_display_def)
  have je: "jumpEffect st (Some cfi) = (fst (displayJumpCfi st cfi))\<lparr>pendingJumpRef := Some cfi\<rparr>"
    using ne d by (simp add: jumpEffect_def displayJumpCfi_set_pending)
  show "\<not> snd (displayJumpCfi st cfi)"
    and "displayAttempts (jumpEffect st (Some cfi)) = display_log r @ [cfi, fb]"
    and "shown (jumpEffect st (Some cfi)) = displayed r"
    and "pendingJumpRef (jumpEffect st (Some cfi)) = Some cfi"
    by (simp_all add: je d shown_def displayAttempts_def)
qed

lemma exampleRange_nonempty: "js ''epubcfi(/6/4!/4/2,/1:0,/1:5)'' \<noteq> []"
  by (simp add: js_def)

lemma ex_getRangeStartCfi:
  "getRangeStartCfi (js ''epubcfi(/6/4!/4/2,/1:0,/1:5)'') = Some (js ''epubcfi(/6/4!/4/2)'')"
  by (simp add: getRangeStartCfi_def startsWith_def js_def lineTerminator_def)

lemma ex_getRangeStartCfi_point:
  "getRangeStartCfi (js ''epubcfi(/6/4!/4/2)'') = None"
  by (simp add: getRangeStartCfi_def startsWith_def js_def lineTerminator_def)

lemma ex_displayJumpCfi_accept:
  "snd (displayJumpCfi (exampleReader (exampleRendition (\<lambda>c. True) (\<lambda>c. True)))
         (js ''epubcfi(/6/4!/4/2,/1:0,/1:5)''))"
  by (simp add: displayJumpCfi_def tryDisplayCfi_def rendition_display_def exampleReader_def
      exampleRendition_def)

lemma ex_displayJumpCfi_reject:
  "\<not> snd (displayJumpCfi (exampleReader (exampleRendition (\<lambda>c. False) (\<lambda>c. True)))
           (js ''epubcfi(/6/4!/4/2,/1:0,/1:5)''))"
  by (simp add: displayJumpCfi_def tryDisplayCfi_def rendition_display_def exampleReader_def
      exampleRendition_def ex_getRangeStartCfi)

lemma ex_accept_all: "display_resolves (exampleRendition (\<lambda>c. True) (\<lambda>c. True)) c"
  by (simp add: exampleRendition_def)

lemma ex_reject_all: "\<not> display_resolves (exampleRendition (\<lambda>c. False) (\<lambda>c. True)) c"
  by (simp add: exampleRendition_def)

lemma ex_pending:
  "pendingJumpRef ((exampleReader r)\<lparr>pendingJumpRef := Some cfi\<rparr>) = Some cfi"
  by simp

theorem jump_cleared_only_on_success_witness:
  "pendingJumpRef (jumpEffect (exampleReader (exampleRendition (\<lambda>c. True) (\<lambda>c. True)))
      (Some (js ''epubcfi(/6/4!/4/2,/1:0,/1:5)''))) = None \<and>
   getRendition (jumpEffect (exampleReader (exampleRendition (\<lambda>c. True) (\<lambda>c. True)))
      (Some (js ''epubcfi(/6/4!/4/2,/1:0,/1:5)''))) (exampleRendition (\<lambda>c. True) (\<lambda>c. True)) =
     (jumpEffect (exampleReader (exampleRendition (\<lambda>c. True) (\<lambda>c. True)))
        (Some (js ''epubcfi(/6/4!/4/2,/1:0,/1:5)'')))
      \<lparr>renditionRef := Some (exampleRendition (\<lambda>c. True) (\<lambda>c. True)), addedBacklinkCfisRef := []\<rparr> \<and>
   pendingJumpRef (jumpEffect (exampleReader (exampleRendition (\<lambda>c. False) (\<lambda>c. True)))
      (Some (js ''epubcfi(/6/4!/4/2,/1:0,/1:5)''))) = Some (js ''epubcfi(/6/4!/4/2,/1:0,/1:5)'') \<and>
   take (Suc (length (display_log (exampleRendition (\<lambda>c. True) (\<lambda>c. True)))))
     (displayAttempts (getRendition
        (jumpEffect (exampleReader (exampleRendition (\<lambda>c. False) (\<lambda>c. True)))
           (Some (js ''epubcfi(/6/4!/4/2,/1:0,/1:5)'')))
        (exampleRendition (\<lambda>c. True) (\<lambda>c. True)))) =
     display_log (exampleRendition (\<lambda>c. True) (\<lambda>c. True)) @ [js ''epubcfi(/6/4!/4/2,/1:0,/1:5)''] \<and>
   pendingJumpRef (getRendition
      ((exampleReader (exampleRendition (\<lambda>c. False) (\<lambda>c. True)))
         \<lparr>pendingJumpRef := Some (js ''epubcfi(/6/4!/4/2,/1:0,/1:5)'')\<rparr>)
      (exampleRendition (\<lambda>c. True) (\<lambda>c. True))) = None \<and>
   pendingJumpRef (getRendition
      ((exampleReader (exampleRendition (\<lambda>c. True) (\<lambda>c. True)))
         \<lparr>pendingJumpRef := Some (js ''epubcfi(/6/4!/4/2,/1:0,/1:5)'')\<rparr>)
      (exampleRendition (\<lambda>c. False) (\<lambda>c. True))) = Some (js ''epubcfi(/6/4!/4/2,/1:0,/1:5)'')"
proof -
  note accept = jump_cleared_only_on_success [OF exampleRange_nonempty,
      of "exampleReader (exampleRendition (\<lambda>c. True) (\<lambda>c. True))"
         "exampleRendition (\<lambda>c. True) (\<lambda>c. True)"]
  note reject = jump_cleared_only_on_success [OF exampleRange_nonempty,
      of "exampleReader (exampleRendition (\<lambda>c. False) (\<lambda>c. True))"
         "exampleRendition (\<lambda>c. True) (\<lambda>c. True)"]
  note retry_ok = jump_cleared_only_on_success [OF exampleRange_nonempty,
      of "(exampleReader (exampleRendition (\<lambda>c. False) (\<lambda>c. True)))
            \<lparr>pendingJumpRef := Some (js ''epubcfi(/6/4!/4/2,/1:0,/1:5)'')\<rparr>"
         "exampleRendition (\<lambda>c. True) (\<lambda>c. True)"]
  note retry_fail = jump_cleared_only_on_success [OF exampleRange_nonempty,
      of "(exampleReader (exampleRendition (\<lambda>c. True) (\<lambda>c. True)))
            \<lparr>pendingJumpRef := Some (js ''epubcfi(/6/4!/4/2,/1:0,/1:5)'')\<rparr>"
         "exampleRendition (\<lambda>c. False) (\<lambda>c. True)"]
  from retry_ok ex_pending
  have "pendingJumpRef (getRendition
      ((exampleReader (exampleRendition (\<lambda>c. False) (\<lambda>c. True)))
         \<lparr>pendingJumpRef := Some (js ''epubcfi(/6/4!/4/2,/1:0,/1:5)'')\<rparr>)
      (exampleRendition (\<lambda>c. True) (\<lambda>c. True))) =
    (if display_resolves (exampleRendition (\<lambda>c. True) (\<lambda>c. True)) (js ''epubcfi(/6/4!/4/2,/1:0,/1:5)'') \<or>
        (\<exists>fb. getRangeStartCfi (js ''epubcfi(/6/4!/4/2,/1:0,/1:5)'') = Some fb \<and>
              display_resolves (exampleRendition (\<lambda>c. True) (\<lambda>c. True)) fb)
     then None else Some (js ''epubcfi(/6/4!/4/2,/1:0,/1:5)''))"
    by blast
  then have one: "pendingJumpRef (getRendition
      ((exampleReader (exampleRendition (\<lambda>c. False) (\<lambda>c. True)))
         \<lparr>pendingJumpRef := Some (js ''epubcfi(/6/4!/4/2,/1:0,/1:5)'')\<rparr>)
      (exampleRendition (\<lambda>c. True) (\<lambda>c. True))) = None"
    by (simp add: ex_accept_all)
  from retry_fail ex_pending
  have "pendingJumpRef (getRendition
      ((exampleReader (exampleRendition (\<lambda>c. True) (\<lambda>c. True)))
         \<lparr>pendingJumpRef := Some (js ''epubcfi(/6/4!/4/2,/1:0,/1:5)'')\<rparr>)
      (exampleRendition (\<lambda>c. False) (\<lambda>c. True))) =
    (if display_resolves (exampleRendition (\<lambda>c. False) (\<lambda>c. True)) (js ''epubcfi(/6/4!/4/2,/1:0,/1:5)'') \<or>
        (\<exists>fb. getRangeStartCfi (js ''epubcfi(/6/4!/4/2,/1:0,/1:5)'') = Some fb \<and>
              display_resolves (exampleRendition (\<lambda>c. False) (\<lambda>c. True)) fb)
     then None else Some (js ''epubcfi(/6/4!/4/2,/1:0,/1:5)''))"
    by blast
  then have two: "pendingJumpRef (getRendition
      ((exampleReader (exampleRendition (\<lambda>c. True) (\<lambda>c. True)))
         \<lparr>pendingJumpRef := Some (js ''epubcfi(/6/4!/4/2,/1:0,/1:5)'')\<rparr>)
      (exampleRendition (\<lambda>c. False) (\<lambda>c. True))) = Some (js ''epubcfi(/6/4!/4/2,/1:0,/1:5)'')"
    by (simp add: ex_reject_all)
  from accept reject ex_displayJumpCfi_accept ex_displayJumpCfi_reject one two
  show ?thesis by blast
qed

text \<open>
  The claim as stated fails after an exhausted fallback: with a rendition that rejects
  every target the request is still pending after the attempt, and the next rendition
  delivered to \<open>getRendition\<close> is asked to display it.
\<close>

theorem jump_pending_after_exhausted_fallback:
  "pendingJumpRef (jumpEffect (exampleReader (exampleRendition (\<lambda>c. False) (\<lambda>c. True)))
       (Some (js ''epubcfi(/6/4!/4/2,/1:0,/1:5)''))) = Some (js ''epubcfi(/6/4!/4/2,/1:0,/1:5)'') \<and>
   displayAttempts (getRendition
       (jumpEffect (exampleReader (exampleRendition (\<lambda>c. False) (\<lambda>c. True)))
          (Some (js ''epubcfi(/6/4!/4/2,/1:0,/1:5)'')))
       (exampleRendition (\<lambda>c. True) (\<lambda>c. True))) = [js ''epubcfi(/6/4!/4/2,/1:0,/1:5)'']"
  by (simp add: jumpEffect_def getRendition_def displayJumpCfi_def tryDisplayCfi_def
      rendition_display_def exampleReader_def exampleRendition_def displayAttempts_def
      ex_getRangeStartCfi) (simp add: js_def)

lemma ex_renditionRef: "renditionRef (exampleReader r) = Some r"
  by (simp add: exampleReader_def)

lemma ex_anchor_only:
  "\<not> display_resolves (exampleRendition (\<lambda>c. c = js ''epubcfi(/6/4!/4/2)'') (\<lambda>c. True))
        (js ''epubcfi(/6/4!/4/2,/1:0,/1:5)'') \<and>
   display_resolves (exampleRendition (\<lambda>c. c = js ''epubcfi(/6/4!/4/2)'') (\<lambda>c. True))
        (js ''epubcfi(/6/4!/4/2)'')"
  by (simp add: exampleRendition_def js_def)

theorem jump_fallback_witness:
  "shown (jumpEffect (exampleReader (exampleRendition (\<lambda>c. c = js ''epubcfi(/6/4!/4/2)'') (\<lambda>c. True)))
      (Some (js ''epubcfi(/6/4!/4/2,/1:0,/1:5)''))) = Some (js ''epubcfi(/6/4!/4/2)'') \<and>
   pendingJumpRef (jumpEffect (exampleReader (exampleRendition (\<lambda>c. c = js ''epubcfi(/6/4!/4/2)'') (\<lambda>c. True)))
      (Some (js ''epubcfi(/6/4!/4/2,/1:0,/1:5)''))) = None \<and>
   \<not> snd (displayJumpCfi (exampleReader (exampleRendition (\<lambda>c. False) (\<lambda>c. True)))
      (js ''epubcfi(/6/4!/4/2)'')) \<and>
   displayAttempts (fst (displayJumpCfi (exampleReader (exampleRendition (\<lambda>c. False) (\<lambda>c. True)))
      (js ''epubcfi(/6/4!/4/2)''))) =
     display_log (exampleRendition (\<lambda>c. False) (\<lambda>c. True)) @ [js ''epubcfi(/6/4!/4/2)''] \<and>
   pendingJumpRef (jumpEffect (exampleReader (exampleRendition (\<lambda>c. False) (\<lambda>c. True)))
      (Some (js ''epubcfi(/6/4!/4/2,/1:0,/1:5)''))) = Some (js ''epubcfi(/6/4!/4/2,/1:0,/1:5)'')"
  using jump_fallback [OF ex_renditionRef conjunct1 [OF ex_anchor_only],
          of "js ''epubcfi(/6/4!/4/2)''"]
        jump_fallback [OF ex_renditionRef ex_reject_all,
          of "js ''epubcfi(/6/4!/4/2)''" "js ''epubcfi(/6/4!/4/2)''"]
        jump_fallback [OF ex_renditionRef ex_reject_all,
          of "js ''epubcfi(/6/4!/4/2,/1:0,/1:5)''" "js ''epubcfi(/6/4!/4/2)''"]
        ex_getRangeStartCfi ex_getRangeStartCfi_point ex_anchor_only ex_reject_all
  by blast

text \<open>
  The claim as stated fails when both attempts are rejected: both display calls are made
  and the pending jump is not cleared.
\<close>

theorem jump_stuck_when_both_rejected:
  "displayAttempts (jumpEffect (exampleReader (exampleRendition (\<lambda>c. False) (\<lambda>c. True)))
       (Some (js ''epubcfi(/6/4!/4/2,/1:0,/1:5)'')))
     = [js ''epubcfi(/6/4!/4/2,/1:0,/1:5)'', js ''epubcfi(/6/4!/4/2)''] \<and>
   pendingJumpRef (jumpEffect (exampleReader (exampleRendition (\<lambda>c. False) (\<lambda>c. True)))
       (Some (js ''epubcfi(/6/4!/4/2,/1:0,/1:5)''))) \<noteq> None"
  by (simp add: jumpEffect_def displayJumpCfi_def tryDisplayCfi_def
      rendition_display_def exampleReader_def exampleRendition_def displayAttempts_def
      ex_getRangeStartCfi) (simp add: js_def)

section \<open>Properties of the codec\<close>

lemma divmod_q: "k < m \<Longrightarrow> (q * m + k) div m = (q::nat)"
  by simp

lemma divmod_r: "k < m \<Longrightarrow> (q * m + k) mod m = (k::nat)"
  by simp

lemma utf8Decode_1:
  assumes "c < 0x80"
  shows "utf8Decode 0 0 0 0x80 0xBF (c # rest) = Some c # utf8Decode 0 0 0 0x80 0xBF rest"
  using assms by simp

lemma utf8Decode_2:
  assumes "2 \<le> q" "q < 32" "r < 64"
  shows "utf8Decode 0 0 0 0x80 0xBF ((0xC0 + q) # (0x80 + r) # rest) =
           Some (q * 64 + r) # utf8Decode 0 0 0 0x80 0xBF rest"
proof -
  have a: "(0xC0 + q) mod 0x20 = q"
    using divmod_r [of q 32 6] assms by (simp add: add.commute)
  have b: "(0x80 + r) mod 0x40 = r"
    using divmod_r [of r 64 2] assms by (simp add: add.commute)
  show ?thesis
    using assms by (simp add: a b)
qed

lemma utf8Decode_3:
  assumes "q < 16" "m < 64" "r < 64" "q = 0 \<longrightarrow> 32 \<le> m" "q = 13 \<longrightarrow> m < 32"
  shows "utf8Decode 0 0 0 0x80 0xBF ((0xE0 + q) # (0x80 + m) # (0x80 + r) # rest) =
           Some ((q * 64 + m) * 64 + r) # utf8Decode 0 0 0 0x80 0xBF rest"
proof -
  have a: "(0xE0 + q) mod 0x10 = q"
    using divmod_r [of q 16 14] assms by (simp add: add.commute)
  have b: "(0x80 + m) mod 0x40 = m"
    using divmod_r [of m 64 2] assms by (simp add: add.commute)
  have c: "(0x80 + r) mod 0x40 = r"
    using divmod_r [of r 64 2] assms by (simp add: add.commute)
  show ?thesis
    using assms by (auto simp add: a b c)
qed

lemma utf8Decode_4:
  assumes "q < 5" "m < 64" "n < 64" "r < 64" "q = 0 \<longrightarrow> 16 \<le> m" "q = 4 \<longrightarrow> m < 16"
  shows "utf8Decode 0 0 0 0x80 0xBF ((0xF0 + q) # (0x80 + m) # (0x80 + n) # (0x80 + r) # rest) =
           Some (((q * 64 + m) * 64 + n) * 64 + r) # utf8Decode 0 0 0 0x80 0xBF rest"
proof -
  have a: "(0xF0 + q) mod 8 = q"
    using divmod_r [of q 8 30] assms by (simp add: add.commute)
  have b: "(0x80 + m) mod 0x40 = m"
    using divmod_r [of m 64 2] assms by (simp add: add.commute)
  have c: "(0x80 + n) mod 0x40 = n"
    using divmod_r [of n 64 2] assms by (simp add: add.commute)
  have d: "(0x80 + r) mod 0x40 = r"
    using divmod_r [of r 64 2] assms by (simp add: add.commute)
  show ?thesis
    using assms by (auto simp add: a b c d)
qed

lemma utf8EncodeScalar_cases:
  assumes "scalarValue c"
  obtains
    (one) "c < 0x80" "utf8EncodeScalar c = [c]"
  | (two) d r where "2 \<le> d" "d < 32" "r < 64" "c = d * 64 + r"
      "utf8EncodeScalar c = [0xC0 + d, 0x80 + r]"
  | (three) e m r where "e < 16" "m < 64" "r < 64" "e = 0 \<longrightarrow> 32 \<le> m" "e = 13 \<longrightarrow> m < 32"
      "c = (e * 64 + m) * 64 + r" "utf8EncodeScalar c = [0xE0 + e, 0x80 + m, 0x80 + r]"
  | (four) q n m r where "q < 5" "n < 64" "m < 64" "r < 64" "q = 0 \<longrightarrow> 16 \<le> n" "q = 4 \<longrightarrow> n < 16"
      "c = ((q * 64 + n) * 64 + m) * 64 + r"
      "utf8EncodeScalar c = [0xF0 + q, 0x80 + n, 0x80 + m, 0x80 + r]"
proof -
  define d where "d = c div 64"
  define r where "r = c mod 64"
  define e where "e = d div 64"
  define m where "m = d mod 64"
  define q where "q = e div 64"
  define n where "n = e mod 64"
  have c: "c = d * 64 + r" and r: "r < 64" by (simp_all add: d_def r_def)
  have d: "d = e * 64 + m" and m: "m < 64" by (simp_all add: e_def m_def)
  have e: "e = q * 64 + n" and n: "n < 64" by (simp_all add: q_def n_def)
  have c4096: "c div 0x1000 = e"
    by (simp add: e_def d_def div_mult2_eq [symmetric])
  have c262144: "c div 0x40000 = q"
    by (simp add: q_def e_def d_def div_mult2_eq [symmetric])
  have range: "c < 0x110000" and nosur: "c < 0xD800 \<or> 0xDFFF < c"
    using assms by (simp_all add: scalarValue_def)
  consider "c < 0x80" | "0x80 \<le> c" "c < 0x800" | "0x800 \<le> c" "c < 0x10000" | "0x10000 \<le> c"
    by linarith
  then show thesis
  proof cases
    case 1
    then have "utf8EncodeScalar c = [c]" by (simp add: utf8EncodeScalar_def)
    with 1 show thesis by (rule one)
  next
    case 2
    have enc: "utf8EncodeScalar c = [0xC0 + d, 0x80 + r]"
      using 2 by (simp add: utf8EncodeScalar_def d_def r_def)
    have "2 \<le> d" "d < 32" using 2 c r by linarith+
    then show thesis using r c enc by (rule two)
  next
    case 3
    have enc: "utf8EncodeScalar c = [0xE0 + e, 0x80 + m, 0x80 + r]"
      using 3 by (simp add: utf8EncodeScalar_def c4096 m_def d_def r_def)
    have "e < 16" using 3 c r d m by linarith
    moreover note m r
    moreover have "e = 0 \<longrightarrow> 32 \<le> m" using 3 c r d m by linarith
    moreover have "e = 13 \<longrightarrow> m < 32" using 3 nosur c r d m by linarith
    moreover have "c = (e * 64 + m) * 64 + r" using c d by simp
    ultimately show thesis using enc by (rule three)
  next
    case 4
    have enc: "utf8EncodeScalar c = [0xF0 + q, 0x80 + n, 0x80 + m, 0x80 + r]"
      using 4 by (simp add: utf8EncodeScalar_def c4096 c262144 n_def m_def d_def r_def)
    have "q < 5" using range c r d m e n by linarith
    moreover note n m r
    moreover have "q = 0 \<longrightarrow> 16 \<le> n" using 4 c r d m e n by linarith
    moreover have "q = 4 \<longrightarrow> n < 16" using range c r d m e n by linarith
    moreover have "c = ((q * 64 + n) * 64 + m) * 64 + r" using c d e by simp
    ultimately show thesis using enc by (rule four)
  qed
qed

lemma utf8_roundtrip_scalar:
  assumes "scalarValue c"
  shows "utf8Decode 0 0 0 0x80 0xBF (utf8EncodeScalar c @ rest) =
           Some c # utf8Decode 0 0 0 0x80 0xBF rest"
  using assms
proof (cases rule: utf8EncodeScalar_cases)
  case one
  then show ?thesis by simp
next
  case (two d r)
  have enc: "utf8EncodeScalar c @ rest = (0xC0 + d) # (0x80 + r) # rest"
    unfolding two(5) by simp
  have dec: "utf8Decode 0 0 0 0x80 0xBF ((0xC0 + d) # (0x80 + r) # rest) =
      Some (d * 64 + r) # utf8Decode 0 0 0 0x80 0xBF rest"
    using two(1-3) by (rule utf8Decode_2)
  show ?thesis
    unfolding enc dec two(4) [symmetric] ..
next
  case (three e m r)
  have enc: "utf8EncodeScalar c @ rest = (0xE0 + e) # (0x80 + m) # (0x80 + r) # rest"
    unfolding three(7) by simp
  have dec: "utf8Decode 0 0 0 0x80 0xBF ((0xE0 + e) # (0x80 + m) # (0x80 + r) # rest) =
      Some ((e * 64 + m) * 64 + r) # utf8Decode 0 0 0 0x80 0xBF rest"
    using three(1-5) by (rule utf8Decode_3)
  show ?thesis
    unfolding enc dec three(6) [symmetric] ..
next
  case (four q n m r)
  have enc: "utf8EncodeScalar c @ rest = (0xF0 + q) # (0x80 + n) # (0x80 + m) # (0x80 + r) # rest"
    unfolding four(8) by simp
  have dec: "utf8Decode 0 0 0 0x80 0xBF ((0xF0 + q) # (0x80 + n) # (0x80 + m) # (0x80 + r) # rest) =
      Some (((q * 64 + n) * 64 + m) * 64 + r) # utf8Decode 0 0 0 0x80 0xBF rest"
    using four(1-6) by (rule utf8Decode_4)
  show ?thesis
    unfolding enc dec four(7) [symmetric] ..
qed

lemma utf8_roundtrip:
  "list_all scalarValue cps \<Longrightarrow>
     utf8Decode 0 0 0 0x80 0xBF (concat (map utf8EncodeScalar cps)) = map Some cps"
  by (induction cps) (simp_all add: utf8_roundtrip_scalar)

lemma utf8EncodeScalar_bytes:
  assumes "scalarValue c"
  shows "list_all (\<lambda>b. b \<le> 0xFF) (utf8EncodeScalar c)"
  using assms
proof (cases rule: utf8EncodeScalar_cases)
  case one
  then show ?thesis by simp
next
  case (two d r)
  then show ?thesis by simp
next
  case (three e m r)
  then show ?thesis by simp
next
  case (four q n m r)
  then show ?thesis by simp
qed

lemma surrogate_pair:
  assumes "isHighSurrogate c" "isLowSurrogate d"
  shows "scalarValue (0x10000 + (c - 0xD800) * 0x400 + (d - 0xDC00))"
    and "utf16Encode (0x10000 + (c - 0xD800) * 0x400 + (d - 0xDC00)) = [c, d]"
    and "0x10000 + (c - 0xD800) * 0x400 + (d - 0xDC00) \<noteq> 0xFEFF"
proof -
  define h where "h = c - 0xD800"
  define l where "l = d - 0xDC00"
  have h: "h < 0x400" and c: "c = 0xD800 + h"
    using assms(1) unfolding isHighSurrogate_def h_def by linarith+
  have l: "l < 0x400" and d: "d = 0xDC00 + l"
    using assms(2) unfolding isLowSurrogate_def l_def by linarith+
  have v: "0x10000 + (c - 0xD800) * 0x400 + (d - 0xDC00) = 0x10000 + (h * 0x400 + l)"
    by (simp add: h_def l_def)
  show "scalarValue (0x10000 + (c - 0xD800) * 0x400 + (d - 0xDC00))"
    unfolding v scalarValue_def using h l by simp
  show "utf16Encode (0x10000 + (c - 0xD800) * 0x400 + (d - 0xDC00)) = [c, d]"
    unfolding v utf16Encode_def using divmod_q [OF l, of h] divmod_r [OF l, of h] c d by simp
  show "0x10000 + (c - 0xD800) * 0x400 + (d - 0xDC00) \<noteq> 0xFEFF"
    unfolding v by simp
qed

lemma wellFormed_scalars: "wellFormed s \<Longrightarrow> list_all scalarValue (toScalarValues s)"
proof (induction s rule: toScalarValues.induct)
  case 1
  then show ?case by simp
next
  case (2 c)
  then show ?case
    by (auto simp: scalarValue_def isHighSurrogate_def isLowSurrogate_def)
next
  case (3 c d cs)
  show ?case
  proof (cases "isHighSurrogate c")
    case True
    with 3 show ?thesis by (simp add: surrogate_pair(1))
  next
    case False
    with "3.prems" have wf: "c < 0x10000" "\<not> isLowSurrogate c" "wellFormed (d # cs)"
      by simp_all
    have "scalarValue c"
      using wf(1,2) False by (auto simp: scalarValue_def isHighSurrogate_def isLowSurrogate_def)
    with 3 wf False show ?thesis by simp
  qed
qed

lemma wellFormed_utf16: "wellFormed s \<Longrightarrow> concat (map utf16Encode (toScalarValues s)) = s"
proof (induction s rule: toScalarValues.induct)
  case 1
  then show ?case by simp
next
  case (2 c)
  then show ?case by (simp add: utf16Encode_def)
next
  case (3 c d cs)
  show ?case
  proof (cases "isHighSurrogate c")
    case True
    with 3 show ?thesis by (simp add: surrogate_pair(2))
  next
    case False
    with 3 show ?thesis by (simp add: utf16Encode_def)
  qed
qed

lemma wellFormed_first:
  "wellFormed s \<Longrightarrow> take 1 s \<noteq> [0xFEFF] \<Longrightarrow> take 1 (toScalarValues s) \<noteq> [0xFEFF]"
proof (induction s rule: toScalarValues.induct)
  case 1
  then show ?case by simp
next
  case (2 c)
  then show ?case by simp
next
  case (3 c d cs)
  show ?case
  proof (cases "isHighSurrogate c")
    case True
    with 3 show ?thesis by (simp add: surrogate_pair(3))
  next
    case False
    with 3 show ?thesis by simp
  qed
qed

lemma octets_sextets_3:
  assumes "b \<le> 0xFF" "c \<le> 0xFF"
  shows "(a div 4) * 4 + (a mod 4 * 16 + b div 16) div 16 = (a::nat)"
    and "(a mod 4 * 16 + b div 16) mod 16 * 16 + (b mod 16 * 4 + c div 64) div 4 = b"
    and "(b mod 16 * 4 + c div 64) mod 4 * 64 + c mod 64 = c"
proof -
  have b: "b div 16 < 16" using assms(1) by (simp add: less_mult_imp_div_less)
  have c: "c div 64 < 4" using assms(2) by (simp add: less_mult_imp_div_less)
  show "(a div 4) * 4 + (a mod 4 * 16 + b div 16) div 16 = a"
    unfolding divmod_q [OF b] by simp
  show "(a mod 4 * 16 + b div 16) mod 16 * 16 + (b mod 16 * 4 + c div 64) div 4 = b"
    unfolding divmod_r [OF b] divmod_q [OF c] by simp
  show "(b mod 16 * 4 + c div 64) mod 4 * 64 + c mod 64 = c"
    unfolding divmod_r [OF c] by simp
qed

lemma octets_sextets_2:
  assumes "b \<le> 0xFF"
  shows "(a mod 4 * 16 + b div 16) mod 16 * 16 + (b mod 16 * 4) div 4 = (b::nat)"
proof -
  have b: "b div 16 < 16" using assms(1) by (simp add: less_mult_imp_div_less)
  show ?thesis
    unfolding divmod_r [OF b] by simp
qed

lemma octets_sextets:
  "list_all (\<lambda>b. b \<le> 0xFF) bs \<Longrightarrow> octets (sextets bs) = bs"
proof (induction bs rule: sextets.induct)
  case (1 a b c rest)
  from "1.prems" have le: "b \<le> 0xFF" "c \<le> 0xFF" and rest: "list_all (\<lambda>b. b \<le> 0xFF) rest"
    by simp_all
  have "octets (sextets (a # b # c # rest)) =
      [(a div 4) * 4 + (a mod 4 * 16 + b div 16) div 16,
       (a mod 4 * 16 + b div 16) mod 16 * 16 + (b mod 16 * 4 + c div 64) div 4,
       (b mod 16 * 4 + c div 64) mod 4 * 64 + c mod 64] @ octets (sextets rest)"
    by (simp only: sextets.simps octets.simps append_Cons append_Nil)
  also have "\<dots> = [a, b, c] @ rest"
    unfolding octets_sextets_3 [OF le] "1.IH" [OF rest] ..
  finally show ?case by simp
next
  case (2 a b)
  from "2.prems" have le: "b \<le> 0xFF" by simp
  have z: "(0::nat) \<le> 0xFF" by simp
  have "octets (sextets [a, b]) =
      [(a div 4) * 4 + (a mod 4 * 16 + b div 16) div 16,
       (a mod 4 * 16 + b div 16) mod 16 * 16 + (b mod 16 * 4) div 4]"
    by (simp only: sextets.simps octets.simps append_Cons append_Nil)
  also have "\<dots> = [a, b]"
    unfolding octets_sextets_3(1) [OF le z] octets_sextets_2 [OF le] ..
  finally show ?case .
next
  case (3 a)
  have "octets (sextets [a]) = [(a div 4) * 4 + (a mod 4 * 16) div 16]"
    by (simp only: sextets.simps octets.simps append_Cons append_Nil)
  also have "(a mod 4 * 16) div 16 = a mod 4" by simp
  also have "(a div 4) * 4 + a mod 4 = a" by simp
  finally show ?case .
next
  case 4
  then show ?case by simp
qed

lemma sextets_range:
  "list_all (\<lambda>b. b \<le> 0xFF) bs \<Longrightarrow> list_all (\<lambda>v. v < 64) (sextets bs)"
proof (induction bs rule: sextets.induct)
  case (1 a b c rest)
  have "a div 4 < 64" "b div 16 < 16" "c div 64 < 4"
    using 1 by (simp_all add: less_mult_imp_div_less)
  moreover have "a mod 4 < 4" "b mod 16 < 16" "c mod 64 < 64" by simp_all
  moreover have "a mod 4 * 16 + b div 16 < 64" "b mod 16 * 4 + c div 64 < 64"
    using calculation by linarith+
  ultimately show ?case using 1 by simp
next
  case (2 a b)
  have "a div 4 < 64" "b div 16 < 16"
    using 2 by (simp_all add: less_mult_imp_div_less)
  moreover have "a mod 4 < 4" "b mod 16 < 16" by simp_all
  moreover have "a mod 4 * 16 + b div 16 < 64" "b mod 16 * 4 < 64"
    using calculation by linarith+
  ultimately show ?case by simp
next
  case (3 a)
  have "a div 4 < 64"
    using 3 by (simp_all add: less_mult_imp_div_less)
  moreover have "a mod 4 < 4" by simp
  moreover have "a mod 4 * 16 < 64"
    using calculation by linarith
  ultimately show ?case by simp
next
  case 4
  then show ?case by simp
qed

lemma sextets_length:
  "length (sextets bs) mod 4 = (if length bs mod 3 = 0 then 0 else Suc (length bs mod 3))"
proof (induction bs rule: sextets.induct)
  case (1 a b c rest)
  have "length (a # b # c # rest) mod 3 = length rest mod 3"
    using mod_add_self2 [of "length rest" 3] by simp
  moreover have "length (sextets (a # b # c # rest)) mod 4 = length (sextets rest) mod 4"
    using mod_add_self2 [of "length (sextets rest)" 4] by simp
  ultimately show ?case using 1 by simp
next
  case (2 a b)
  then show ?case by simp
next
  case (3 a)
  then show ?case by simp
next
  case 4
  then show ?case by simp
qed

lemma b64value_b64char: "v < 64 \<Longrightarrow> b64value (b64char v) = Some v"
  by (auto simp: b64value_def b64char_def)

lemma b64char_plain:
  "v < 64 \<Longrightarrow> b64char v \<noteq> 61 \<and> b64char v \<noteq> 45 \<and> b64char v \<noteq> 95"
  by (auto simp: b64char_def)

lemma mod4_cases:
  obtains "n mod 4 = (0::nat)" | "n mod 4 = (1::nat)" | "n mod 4 = (2::nat)" | "n mod 4 = (3::nat)"
proof -
  have "n mod 4 < 4" by simp
  then consider "n mod 4 = 0" | "n mod 4 = 1" | "n mod 4 = 2" | "n mod 4 = 3" by linarith
  then show thesis using that by cases
qed

lemma padLoop_0: "length s mod 4 = 0 \<Longrightarrow> padLoop s = s"
  by (subst padLoop.simps) simp

lemma padLoop_3:
  assumes "length s mod 4 = 3"
  shows "padLoop s = s @ [61]"
proof -
  have "length (s @ [61]) mod 4 = 0" using assms by (simp add: mod_Suc)
  then have "padLoop (s @ [61]) = s @ [61]" by (rule padLoop_0)
  then show ?thesis using assms by (subst padLoop.simps) simp
qed

lemma padLoop_2:
  assumes "length s mod 4 = 2"
  shows "padLoop s = s @ [61, 61]"
proof -
  have "length (s @ [61]) mod 4 = 3" using assms by (simp add: mod_Suc)
  then have "padLoop (s @ [61]) = (s @ [61]) @ [61]" by (rule padLoop_3)
  then show ?thesis using assms by (subst padLoop.simps) simp
qed

lemma padLoop_1:
  assumes "length s mod 4 = 1"
  shows "padLoop s = s @ [61, 61, 61]"
proof -
  have "length (s @ [61]) mod 4 = 2" using assms by (simp add: mod_Suc)
  then have "padLoop (s @ [61]) = (s @ [61]) @ [61, 61]" by (rule padLoop_2)
  then show ?thesis using assms by (subst padLoop.simps) simp
qed

lemma removePadding_none: "61 \<notin> set body \<Longrightarrow> removePadding body = body"
  by (cases "rev body") (auto simp: removePadding_def split: list.splits)

lemma removePadding_one:
  "61 \<notin> set body \<Longrightarrow> body \<noteq> [] \<Longrightarrow> removePadding (body @ [61]) = body"
  by (cases "rev body") (auto simp: removePadding_def)

lemma removePadding_two: "removePadding (body @ [61, 61]) = body"
  by (simp add: removePadding_def)

lemma removePadding_three: "removePadding (body @ [61, 61, 61]) = body @ [61]"
  by (simp add: removePadding_def)

lemma those_map_Some:
  "list_all (\<lambda>c. f c \<noteq> None) xs \<Longrightarrow> those (map f xs) = Some (map (\<lambda>c. the (f c)) xs)"
  by (induction xs) auto

lemma those_map_None: "f x = None \<Longrightarrow> those (map f (xs @ x # ys)) = None"
  by (induction xs) (auto split: option.splits)

lemma b64value_not_special:
  "b64value c = Some v \<Longrightarrow> c \<noteq> 61 \<and> \<not> asciiWhitespace c"
  by (auto simp: b64value_def asciiWhitespace_def split: if_splits)

lemma base64_body:
  assumes "list_all (\<lambda>c. b64value c \<noteq> None) body"
  shows "61 \<notin> set body"
    and "filter (\<lambda>c. \<not> asciiWhitespace c) (body @ replicate k 61) = body @ replicate k 61"
    and "those (map b64value body) = Some (map (\<lambda>c. the (b64value c)) body)"
proof -
  have each: "c \<noteq> 61 \<and> \<not> asciiWhitespace c" if "c \<in> set body" for c
  proof -
    from assms that obtain v where "b64value c = Some v" by (auto simp: list_all_iff)
    then show ?thesis by (rule b64value_not_special)
  qed
  have ws61: "\<not> asciiWhitespace 61" by (simp add: asciiWhitespace_def)
  show "filter (\<lambda>c. \<not> asciiWhitespace c) (body @ replicate k 61) = body @ replicate k 61"
    using each ws61 by (simp add: filter_id_conv)
  show "61 \<notin> set body"
    using each by blast
  show "those (map b64value body) = Some (map (\<lambda>c. the (b64value c)) body)"
    by (rule those_map_Some [OF assms])
qed

lemma atob_pad0:
  assumes ok: "list_all (\<lambda>c. b64value c \<noteq> None) body" and len: "length body mod 4 = 0"
  shows "atob (padLoop body) = Inr (octets (map (\<lambda>c. the (b64value c)) body))"
proof -
  have f: "filter (\<lambda>c. \<not> asciiWhitespace c) body = body"
    using base64_body(2) [OF ok, of 0] by simp
  show ?thesis
    unfolding padLoop_0 [OF len] atob_def Let_def f
    using len by (simp add: removePadding_none [OF base64_body(1) [OF ok]] base64_body(3) [OF ok])
qed

lemma atob_pad1:
  assumes ok: "list_all (\<lambda>c. b64value c \<noteq> None) body" and len: "length body mod 4 = 1"
  shows "atob (padLoop body) = Inl InvalidCharacterError"
proof -
  have f: "filter (\<lambda>c. \<not> asciiWhitespace c) (body @ [61, 61, 61]) = body @ [61, 61, 61]"
    using base64_body(2) [OF ok, of 3] by (simp add: numeral_3_eq_3)
  have l3: "length (body @ [61, 61, 61]) mod 4 = 0" using len by (simp add: mod_Suc)
  have l1: "length (body @ [61]) mod 4 = 2" using len by (simp add: mod_Suc)
  have n: "b64value 61 = None" by (simp add: b64value_def)
  have t: "those (map b64value (body @ [61])) = None"
    using those_map_None [of b64value 61 body "[]"] n by simp
  have "atob (body @ [61, 61, 61]) = Inl InvalidCharacterError"
    unfolding atob_def Let_def f if_P [OF l3] removePadding_three l1 t by simp
  then show ?thesis
    unfolding padLoop_1 [OF len] .
qed

lemma atob_pad2:
  assumes ok: "list_all (\<lambda>c. b64value c \<noteq> None) body" and len: "length body mod 4 = 2"
  shows "atob (padLoop body) = Inr (octets (map (\<lambda>c. the (b64value c)) body))"
proof -
  have f: "filter (\<lambda>c. \<not> asciiWhitespace c) (body @ [61, 61]) = body @ [61, 61]"
    using base64_body(2) [OF ok, of 2] by (simp add: numeral_2_eq_2)
  have l2: "length (body @ [61, 61]) mod 4 = 0" using len by (simp add: mod_Suc)
  have "atob (body @ [61, 61]) = Inr (octets (map (\<lambda>c. the (b64value c)) body))"
    unfolding atob_def Let_def f if_P [OF l2] removePadding_two len base64_body(3) [OF ok] by simp
  then show ?thesis
    unfolding padLoop_2 [OF len] .
qed

lemma atob_pad3:
  assumes ok: "list_all (\<lambda>c. b64value c \<noteq> None) body" and len: "length body mod 4 = 3"
  shows "atob (padLoop body) = Inr (octets (map (\<lambda>c. the (b64value c)) body))"
proof -
  have f: "filter (\<lambda>c. \<not> asciiWhitespace c) (body @ [61]) = body @ [61]"
    using base64_body(2) [OF ok, of 1] by simp
  have l1: "length (body @ [61]) mod 4 = 0" using len by (simp add: mod_Suc)
  have ne: "body \<noteq> []" using len by auto
  have "atob (body @ [61]) = Inr (octets (map (\<lambda>c. the (b64value c)) body))"
    unfolding atob_def Let_def f if_P [OF l1] removePadding_one [OF base64_body(1) [OF ok] ne]
      len base64_body(3) [OF ok] by simp
  then show ?thesis
    unfolding padLoop_3 [OF len] .
qed

lemma stripTrailing_padding:
  assumes "x \<notin> set xs"
  shows "stripTrailing x (xs @ replicate k x) = xs"
proof -
  have "dropWhile (\<lambda>c. c = x) (replicate k x @ rev xs) = dropWhile (\<lambda>c. c = x) (rev xs)"
    by (rule dropWhile_append2) simp
  also have "\<dots> = rev xs"
    using assms by (cases "rev xs") auto
  finally show ?thesis by (simp add: stripTrailing_def)
qed

lemma token_chars_base64:
  "list_all tokenChar t \<Longrightarrow>
     list_all (\<lambda>c. b64value c \<noteq> None) (replaceAll 95 47 (replaceAll 45 43 t))"
  by (induction t) (auto simp: replaceAll_def tokenChar_def b64value_def)

lemma url_alphabet_roundtrip:
  assumes "list_all (\<lambda>v. v < 64) sx"
  shows "replaceAll 95 47 (replaceAll 45 43
           (stripTrailing 61 (replaceAll 47 95 (replaceAll 43 45 (map b64char sx @ replicate k 61)))))
         = map b64char sx"
proof -
  have a: "replaceAll 47 95 (replaceAll 43 45 (map b64char sx @ replicate k 61)) =
        replaceAll 47 95 (replaceAll 43 45 (map b64char sx)) @ replicate k 61"
    by (simp add: replaceAll_def)
  have b: "61 \<notin> set (replaceAll 47 95 (replaceAll 43 45 (map b64char sx)))"
    using assms by (auto simp: replaceAll_def list_all_iff b64char_def split: if_splits)
  have c: "replaceAll 95 47 (replaceAll 45 43 (replaceAll 47 95 (replaceAll 43 45 (map b64char sx))))
        = map b64char sx"
    using assms by (induction sx) (auto simp: replaceAll_def b64char_def)
  show ?thesis
    unfolding a stripTrailing_padding [OF b] c ..
qed

lemma TextEncoder_bytes:
  "wellFormed s \<Longrightarrow> list_all (\<lambda>b. b \<le> 0xFF) (TextEncoder_encode s)"
proof -
  assume "wellFormed s"
  then have "list_all scalarValue (toScalarValues s)" by (rule wellFormed_scalars)
  moreover have "b \<le> 0xFF" if "scalarValue c" "b \<in> set (utf8EncodeScalar c)" for b c
    using utf8EncodeScalar_bytes [OF that(1)] that(2) by (simp add: list_all_iff)
  ultimately show ?thesis
    by (auto simp: TextEncoder_encode_def list_all_iff)
qed

lemma TextDecoder_roundtrip:
  assumes wf: "wellFormed s" and nobom: "take 1 s \<noteq> [0xFEFF]"
  shows "TextDecoder_decode (TextEncoder_encode s) = s"
proof -
  have sc: "list_all scalarValue (toScalarValues s)" using wf by (rule wellFormed_scalars)
  have dec: "utf8Decode 0 0 0 0x80 0xBF (TextEncoder_encode s) = map Some (toScalarValues s)"
    unfolding TextEncoder_encode_def by (rule utf8_roundtrip [OF sc])
  have out: "map (\<lambda>item. case item of None \<Rightarrow> 0xFFFD | Some cp \<Rightarrow> cp) (map Some (toScalarValues s))
      = toScalarValues s"
    by (simp add: comp_def)
  have first: "take 1 (toScalarValues s) \<noteq> [0xFEFF]"
    using wf nobom by (rule wellFormed_first)
  have bom: "(case toScalarValues s of [] \<Rightarrow> [] | cp # rest \<Rightarrow>
                if cp = 0xFEFF then rest else toScalarValues s) = toScalarValues s"
    using first by (cases "toScalarValues s") auto
  show ?thesis
    unfolding TextDecoder_decode_def dec out Let_def bom by (rule wellFormed_utf16 [OF wf])
qed

lemma base64UrlDecode_token:
  assumes "list_all tokenChar t"
  shows "base64UrlDecode t =
     (if length t mod 4 = 1 then Inl InvalidCharacterError
      else Inr (TextDecoder_decode (map (\<lambda>c. c mod 256)
             (octets (map (\<lambda>c. the (b64value c)) (replaceAll 95 47 (replaceAll 45 43 t)))))))"
proof -
  let ?body = "replaceAll 95 47 (replaceAll 45 43 t)"
  have ok: "list_all (\<lambda>c. b64value c \<noteq> None) ?body"
    using assms by (rule token_chars_base64)
  have len: "length ?body = length t" by (simp add: replaceAll_def)
  show ?thesis
  proof (cases "length t" rule: mod4_cases)
    case 1
    then show ?thesis
      using atob_pad0 [OF ok] len by (simp add: base64UrlDecode_def)
  next
    case 2
    then show ?thesis
      using atob_pad1 [OF ok] len by (simp add: base64UrlDecode_def)
  next
    case 3
    then show ?thesis
      using atob_pad2 [OF ok] len by (simp add: base64UrlDecode_def)
  next
    case 4
    then show ?thesis
      using atob_pad3 [OF ok] len by (simp add: base64UrlDecode_def)
  qed
qed

lemma base64Url_encode_decode:
  assumes wf: "wellFormed s" and nobom: "take 1 s \<noteq> [0xFEFF]"
  shows "base64UrlEncode s =
           Inr (replaceAll 47 95 (replaceAll 43 45 (map b64char (sextets (TextEncoder_encode s)))))"
    and "base64UrlDecode
           (replaceAll 47 95 (replaceAll 43 45 (map b64char (sextets (TextEncoder_encode s))))) = Inr s"
    and "list_all tokenChar
           (replaceAll 47 95 (replaceAll 43 45 (map b64char (sextets (TextEncoder_encode s)))))"
proof -
  let ?bytes = "TextEncoder_encode s"
  let ?sx = "sextets ?bytes"
  let ?body = "map b64char ?sx"
  let ?t = "replaceAll 47 95 (replaceAll 43 45 ?body)"
  have bytes: "list_all (\<lambda>b. b \<le> 0xFF) ?bytes" using wf by (rule TextEncoder_bytes)
  have sx: "list_all (\<lambda>v. v < 64) ?sx" using bytes by (rule sextets_range)
  have no61: "61 \<notin> set ?t"
    using sx by (auto simp: replaceAll_def list_all_iff b64char_def split: if_splits)
  have strip: "stripTrailing 61 (replaceAll 47 95 (replaceAll 43 45 (?body @ replicate k 61))) = ?t" for k
  proof -
    have "replaceAll 47 95 (replaceAll 43 45 (?body @ replicate k 61)) = ?t @ replicate k 61"
      by (simp add: replaceAll_def)
    then show ?thesis using stripTrailing_padding [OF no61] by simp
  qed
  show enc: "base64UrlEncode s = Inr ?t"
    using bytes by (simp add: base64UrlEncode_def Let_def btoa_def strip)
  show tok: "list_all tokenChar ?t"
    using sx by (auto simp: replaceAll_def list_all_iff b64char_def tokenChar_def)
  have undo: "replaceAll 95 47 (replaceAll 45 43 ?t) = ?body"
    using url_alphabet_roundtrip [OF sx, of 0] strip [of 0] by simp
  have "the (b64value (b64char v)) = v" if "v \<in> set ?sx" for v
    using sx that by (simp add: list_all_iff b64value_b64char)
  then have vals: "map (\<lambda>c. the (b64value c)) ?body = ?sx"
    by (simp add: comp_def map_idI)
  have len: "length ?t = length ?sx" by (simp add: replaceAll_def)
  have not1: "length ?t mod 4 \<noteq> 1"
    unfolding len sextets_length by (simp split: if_splits)
  have "b mod 256 = b" if "b \<in> set ?bytes" for b
  proof -
    from bytes that have "b \<le> 0xFF" by (simp add: list_all_iff)
    then have "b < 256" by simp
    then show ?thesis by (rule mod_less)
  qed
  then have m: "map (\<lambda>c. c mod 256) ?bytes = ?bytes"
    by (rule map_idI)
  show "base64UrlDecode ?t = Inr s"
    unfolding base64UrlDecode_token [OF tok] undo vals octets_sextets [OF bytes] m
      TextDecoder_roundtrip [OF wf nobom]
    using not1 by simp
qed

lemma replicate_2: "replicate 2 x = [x, x]"
  by (simp add: numeral_2_eq_2)

text \<open>
  Claim C1 (as amended).  For every string \<open>s\<close> without a lone surrogate that does not
  begin with U+FEFF (the empty string, non-ASCII strings and strings with \<^verbatim>\<open>+\<close>, \<^verbatim>\<open>/\<close>,
  \<^verbatim>\<open>=\<close> among them), \<open>base64UrlEncode s\<close> returns a token \<open>t\<close> over the alphabet
  \<^verbatim>\<open>[A-Za-z0-9_-]\<close>, \<open>base64UrlDecode t\<close> returns \<open>s\<close>, and encoding what \<open>t\<close> decodes to
  returns \<open>t\<close>: the two round trips hold for these strings and for the tokens made from
  them.
\<close>

theorem base64Url_roundtrip:
  assumes "wellFormed s" and "take 1 s \<noteq> [0xFEFF]"
  shows "\<exists>t. base64UrlEncode s = Inr t \<and> list_all tokenChar t \<and> base64UrlDecode t = Inr s \<and>
             (\<exists>s'. base64UrlDecode t = Inr s' \<and> base64UrlEncode s' = Inr t)"
  using base64Url_encode_decode [OF assms] by blast

theorem base64Url_roundtrip_witness:
  "(\<exists>t. base64UrlEncode [97, 43, 47, 61, 233, 0x4E2D, 0xD83D, 0xDE00] = Inr t \<and>
        list_all tokenChar t \<and>
        base64UrlDecode t = Inr [97, 43, 47, 61, 233, 0x4E2D, 0xD83D, 0xDE00] \<and>
        (\<exists>s'. base64UrlDecode t = Inr s' \<and> base64UrlEncode s' = Inr t)) \<and>
   (\<exists>t. base64UrlEncode [] = Inr t \<and> list_all tokenChar t \<and> base64UrlDecode t = Inr [] \<and>
        (\<exists>s'. base64UrlDecode t = Inr s' \<and> base64UrlEncode s' = Inr t))"
  using base64Url_roundtrip [of "[97, 43, 47, 61, 233, 0x4E2D, 0xD83D, 0xDE00]"]
    base64Url_roundtrip [of "[]"]
  by (simp add: isHighSurrogate_def isLowSurrogate_def)

text \<open>
  The claim as stated fails in both directions.  A string that begins with U+FEFF loses
  it: it is encoded as \<^verbatim>\<open>77u_\<close>, which decodes to the empty string, whose code is the
  empty token, so the token \<^verbatim>\<open>77u_\<close> made by the encoder is not restored either.  A lone
  surrogate comes back as U+FFFD.  And the token \<^verbatim>\<open>QR\<close>, over the alphabet and accepted by
  the decoder, decodes to \<^verbatim>\<open>A\<close>, whose code is \<^verbatim>\<open>QQ\<close>.
\<close>

theorem base64Url_roundtrip_fails:
  "base64UrlEncode [0xFEFF] = Inr (js ''77u_'') \<and> base64UrlDecode (js ''77u_'') = Inr [] \<and>
   base64UrlEncode [] = Inr [] \<and>
   base64UrlEncode [0xD800] = Inr (js ''77-9'') \<and> base64UrlDecode (js ''77-9'') = Inr [0xFFFD] \<and>
   base64UrlDecode (js ''QR'') = Inr (js ''A'') \<and> base64UrlEncode (js ''A'') = Inr (js ''QQ'')"
  by (simp add: base64UrlEncode_def base64UrlDecode_def TextEncoder_encode_def utf8EncodeScalar_def
      isHighSurrogate_def isLowSurrogate_def btoa_def b64char_def stripTrailing_def
      padLoop.simps replaceAll_def js_def atob_def removePadding_def asciiWhitespace_def
      b64value_def TextDecoder_decode_def utf16Encode_def replicate_2)

lemma base64UrlDecode_error:
  assumes "base64UrlDecode t = Inl e"
  shows "e = InvalidCharacterError"
proof -
  have "atob s = Inl x \<Longrightarrow> x = InvalidCharacterError" for s x
    by (auto simp: atob_def Let_def split: if_splits option.splits)
  with assms show ?thesis
    by (auto simp: base64UrlDecode_def Let_def split: sum.splits)
qed

text \<open>
  Claim C9 (as amended).  The only exception of \<open>base64UrlDecode\<close> is
  \<^verbatim>\<open>InvalidCharacterError\<close>, and both callers catch it: \<open>handleJumpFromCfi64\<close> leaves the
  view as it was, and the resolver's loop marks the token as seen, adds no descriptor and
  goes on.  For a token over the alphabet \<^verbatim>\<open>[A-Za-z0-9_-]\<close> the exception is thrown
  when its length is 1 modulo 4 (it is not base64); every other token decodes without an
  exception, whatever its bytes are, and the resolver makes a descriptor of the result.
\<close>

theorem base64UrlDecode_failure:
  "(base64UrlDecode t = Inl e \<longrightarrow>
      e = InvalidCharacterError \<and>
      handleJumpFromCfi64 renderReader view t = view \<and>
      (t \<noteq> [] \<and> t \<notin> seen \<longrightarrow>
         processMatch t source disp limit (seen, results) = Next (insert t seen, results))) \<and>
   (list_all tokenChar t \<and> length t mod 4 = 1 \<longrightarrow>
      base64UrlDecode t = Inl InvalidCharacterError) \<and>
   (list_all tokenChar t \<and> length t mod 4 \<noteq> 1 \<longrightarrow>
      (\<exists>decoded. base64UrlDecode t = Inr decoded \<and>
         (t \<noteq> [] \<and> t \<notin> seen \<longrightarrow>
            resultsOf (processMatch t source disp limit (seen, results)) =
              results @ [\<lparr>cfiRange = decoded, sourceFile = source, display = disp\<rparr>])))"
proof (intro conjI impI)
  assume fails: "base64UrlDecode t = Inl e"
  then show "e = InvalidCharacterError"
    by (rule base64UrlDecode_error)
  show "handleJumpFromCfi64 renderReader view t = view"
    by (simp add: handleJumpFromCfi64_def fails)
  assume "t \<noteq> [] \<and> t \<notin> seen"
  then show "processMatch t source disp limit (seen, results) = Next (insert t seen, results)"
    by (simp add: processMatch_def fails)
next
  assume "list_all tokenChar t \<and> length t mod 4 = 1"
  then show "base64UrlDecode t = Inl InvalidCharacterError"
    by (simp add: base64UrlDecode_token)
next
  assume "list_all tokenChar t \<and> length t mod 4 \<noteq> 1"
  then obtain decoded where ok: "base64UrlDecode t = Inr decoded"
    by (simp add: base64UrlDecode_token)
  have "resultsOf (processMatch t source disp limit (seen, results)) =
      results @ [\<lparr>cfiRange = decoded, sourceFile = source, display = disp\<rparr>]"
    if "t \<noteq> [] \<and> t \<notin> seen"
    using that by (simp add: processMatch_def ok Let_def resultsOf_def)
  with ok show "\<exists>decoded. base64UrlDecode t = Inr decoded \<and>
      (t \<noteq> [] \<and> t \<notin> seen \<longrightarrow>
         resultsOf (processMatch t source disp limit (seen, results)) =
           results @ [\<lparr>cfiRange = decoded, sourceFile = source, display = disp\<rparr>])"
    by blast
qed

theorem base64UrlDecode_failure_witness:
  "base64UrlDecode (js ''ZXB1Y'') = Inl InvalidCharacterError \<and>
   handleJumpFromCfi64 (\<lambda>v. Some v) \<lparr>jumpCfiRange = None\<rparr> (js ''ZXB1Y'') = \<lparr>jumpCfiRange = None\<rparr> \<and>
   processMatch (js ''ZXB1Y'') (exampleNote ''A'') (js ''A'') 200 ({}, []) = Next ({js ''ZXB1Y''}, []) \<and>
   (\<exists>decoded. base64UrlDecode (js token4) = Inr decoded)"
proof -
  have tok1: "list_all tokenChar (js ''ZXB1Y'') \<and> length (js ''ZXB1Y'') mod 4 = 1"
    by (simp add: js_def tokenChar_def)
  have tok2: "list_all tokenChar (js token4) \<and> length (js token4) mod 4 \<noteq> 1"
    by (simp add: js_def tokenChar_def token4_def)
  have fresh: "js ''ZXB1Y'' \<noteq> [] \<and> js ''ZXB1Y'' \<notin> {}"
    by (simp add: js_def)
  note at1 = base64UrlDecode_failure [where t = "js ''ZXB1Y''" and e = InvalidCharacterError
      and renderReader = "\<lambda>v. Some v" and view = "\<lparr>jumpCfiRange = None\<rparr>"
      and seen = "{}" and results = "[]"
      and source = "exampleNote ''A''" and disp = "js ''A''" and limit = 200]
  from at1 tok1 have a: "base64UrlDecode (js ''ZXB1Y'') = Inl InvalidCharacterError"
    by blast
  from at1 a fresh
  have b: "handleJumpFromCfi64 (\<lambda>v. Some v) \<lparr>jumpCfiRange = None\<rparr> (js ''ZXB1Y'') = \<lparr>jumpCfiRange = None\<rparr>"
    and c: "processMatch (js ''ZXB1Y'') (exampleNote ''A'') (js ''A'') 200 ({}, []) =
      Next (insert (js ''ZXB1Y'') {}, [])"
    by blast+
  from base64UrlDecode_failure [where t = "js token4"] tok2
  have d: "\<exists>decoded. base64UrlDecode (js token4) = Inr decoded"
    by blast
  from a b c d show ?thesis by simp
qed

text \<open>
  The claim as stated fails for a token whose bytes are not UTF-8: \<^verbatim>\<open>_w\<close> is padded to
  \<^verbatim>\<open>/w==\<close>, the byte 0xFF, which the decoder replaces by U+FFFD without an exception.
\<close>

theorem base64UrlDecode_invalid_utf8:
  "atob (js ''/w=='') = Inr [0xFF] \<and> utf8Decode 0 0 0 0x80 0xBF [0xFF] = [None] \<and>
   base64UrlDecode (js ''_w'') = Inr [0xFFFD]"
  by (simp add: base64UrlDecode_def padLoop.simps replaceAll_def js_def atob_def removePadding_def
      asciiWhitespace_def b64value_def TextDecoder_decode_def utf16Encode_def)

section \<open>Properties of the resolver\<close>

lemma collect_append:
  "collect limit (xs @ ys) st =
     (case collect limit xs st of Return st' \<Rightarrow> Return st' | Next st' \<Rightarrow> collect limit ys st')"
  by (induction xs arbitrary: st) (auto split: flow.splits)

lemma scanOriginal_collect:
  "scanOriginal str lastIndex source disp limit st =
     collect limit (map (\<lambda>encoded. (encoded, source, disp)) (allMatches str lastIndex)) st"
proof (induction str lastIndex source disp limit st rule: scanOriginal.induct)
  case (1 str lastIndex source disp limit st)
  show ?case
  proof (cases "CFI64_REGEX_exec str lastIndex")
    case None
    then show ?thesis
      by (subst scanOriginal.simps, subst allMatches.simps) simp
  next
    case (Some p)
    obtain encoded lastIndex' where p: "p = (encoded, lastIndex')" by (cases p)
    show ?thesis
    proof (cases "processMatch encoded source disp limit st")
      case (Next st')
      from "1.IH" [OF Some p [symmetric] Next]
      show ?thesis
        by (subst scanOriginal.simps, subst allMatches.simps) (simp add: Some p Next)
    next
      case (Return st')
      then show ?thesis
        by (subst scanOriginal.simps, subst allMatches.simps) (simp add: Some p)
    qed
  qed
qed

lemma scanItems_collect:
  "scanItems app bookFile source limit items st =
     collect limit (concat (map (itemOccurrences app bookFile source) items)) st"
proof (induction items arbitrary: st)
  case Nil
  then show ?case by simp
next
  case (Cons item items)
  show ?case
    by (simp add: itemOccurrences_def collect_append scanOriginal_collect Cons
        split: option.splits flow.splits)
qed

lemma scanCandidates_collect:
  "scanCandidates app bookFile limit sources st =
     collect limit (concat (map (candidateOccurrences app bookFile) sources)) st"
proof (induction sources arbitrary: st)
  case Nil
  then show ?case by simp
next
  case (Cons source sources)
  show ?case
    by (simp add: candidateOccurrences_def collect_append scanItems_collect Cons
        split: option.splits flow.splits)
qed

lemma getHighlightsForBook_collect:
  "getHighlightsForBook app bookFile limit =
     resultsOf (collect limit (allOccurrences app bookFile) ({}, []))"
  by (simp add: getHighlightsForBook_def resultsOf_def allOccurrences_def scanCandidates_collect)

lemma firstOccurrences_tokens:
  "fst ` set (firstOccurrences seen occs) = fst ` set occs - seen"
  by (induction seen occs rule: firstOccurrences.induct) auto

lemma firstOccurrences_distinct: "distinct (map fst (firstOccurrences seen occs))"
proof (induction occs arbitrary: seen)
  case Nil
  then show ?case by simp
next
  case (Cons occ occs)
  obtain encoded x where occ: "occ = (encoded, x)" by (cases occ)
  have "encoded \<notin> fst ` set (firstOccurrences (insert encoded seen) occs)"
    unfolding firstOccurrences_tokens by simp
  then show ?case
    using Cons [of seen] Cons [of "insert encoded seen"] by (simp add: occ)
qed

lemma firstOccurrences_subset: "set (firstOccurrences seen occs) \<subseteq> set occs"
  by (induction seen occs rule: firstOccurrences.induct) auto

lemma take_budget:
  assumes "\<not> limit \<le> int (Suc n)"
  shows "take (nat (max 1 (limit - int n))) (d # ds) = d # take (nat (max 1 (limit - int (Suc n)))) ds"
proof -
  from assms have two: "1 \<le> limit - int n - 1" by simp
  then have a: "max 1 (limit - int n) = limit - int n"
    and b: "max 1 (limit - int (Suc n)) = limit - int n - 1"
    by simp_all
  have "Suc (nat (limit - int n - 1)) = nat (1 + (limit - int n - 1))"
    using two by (intro Suc_nat_eq_nat_zadd1) simp
  then have "nat (limit - int n) = Suc (nat (limit - int n - 1))" by simp
  then show ?thesis unfolding a b by simp
qed

lemma collect_results:
  assumes "list_all (\<lambda>occ. fst occ \<noteq> []) occs"
  shows "resultsOf (collect limit occs (seen, res)) =
     res @ take (nat (max 1 (limit - int (length res))))
              (List.map_filter descriptorOf (firstOccurrences seen occs))"
  using assms
proof (induction occs arbitrary: seen res)
  case Nil
  then show ?case by (simp add: resultsOf_def List.map_filter_simps)
next
  case (Cons occ occs)
  obtain encoded source disp where occ: "occ = (encoded, source, disp)" by (cases occ)
  from Cons.prems have ne: "encoded \<noteq> []" and rest: "list_all (\<lambda>occ. fst occ \<noteq> []) occs"
    by (simp_all add: occ)
  note IH = Cons.IH [OF rest]
  show ?case
  proof (cases "encoded \<in> seen")
    case True
    then show ?thesis
      using ne IH [of seen res] by (simp add: occ processMatch_def)
  next
    case False
    show ?thesis
    proof (cases "base64UrlDecode encoded")
      case (Inl e)
      then show ?thesis
        using ne False IH [of "insert encoded seen" res]
        by (simp add: occ processMatch_def descriptorOf_def List.map_filter_simps)
    next
      case (Inr decoded)
      let ?d = "\<lparr>cfiRange = decoded, sourceFile = source, display = disp\<rparr>"
      have mf: "List.map_filter descriptorOf (firstOccurrences seen (occ # occs)) =
          ?d # List.map_filter descriptorOf (firstOccurrences (insert encoded seen) occs)"
        using False Inr by (simp add: occ descriptorOf_def List.map_filter_simps)
      show ?thesis
      proof (cases "limit \<le> int (Suc (length res))")
        case True
        then have "nat (max 1 (limit - int (length res))) = 1" by auto
        then show ?thesis
          using ne False Inr True unfolding mf
          by (simp add: occ processMatch_def Let_def resultsOf_def)
      next
        case nolimit: False
        have "collect limit (occ # occs) (seen, res) =
            collect limit occs (insert encoded seen, res @ [?d])"
          using ne False Inr nolimit by (simp add: occ processMatch_def Let_def)
        then show ?thesis
          unfolding mf take_budget [OF nolimit]
          using IH [of "insert encoded seen" "res @ [?d]"] by simp
      qed
    qed
  qed
qed

lemma allMatches_tokens:
  "list_all (\<lambda>encoded. encoded \<noteq> [] \<and> list_all tokenChar encoded) (allMatches str lastIndex)"
proof (induction str lastIndex rule: allMatches.induct)
  case (1 str lastIndex)
  show ?case
  proof (cases "CFI64_REGEX_exec str lastIndex")
    case None
    then show ?thesis by (subst allMatches.simps) simp
  next
    case (Some p)
    obtain encoded lastIndex' where p: "p = (encoded, lastIndex')" by (cases p)
    from CFI64_REGEX_exec_advances [OF Some [unfolded p]] "1.IH" [OF Some p [symmetric]]
    show ?thesis
      by (subst allMatches.simps) (simp add: Some p)
  qed
qed

lemma itemOccurrences_token:
  assumes "occ \<in> set (itemOccurrences app bookFile source item)"
  shows "fst occ \<noteq> [] \<and> list_all tokenChar (fst occ)"
proof -
  from assms obtain orig where "fst occ \<in> set (allMatches orig 0)"
    by (auto simp: itemOccurrences_def split: option.splits if_splits)
  with allMatches_tokens [of orig 0] show ?thesis
    by (simp add: list_all_iff)
qed

lemma allOccurrences_token:
  assumes "occ \<in> set (allOccurrences app bookFile)"
  shows "fst occ \<noteq> [] \<and> list_all tokenChar (fst occ)"
proof -
  from assms obtain source where "occ \<in> set (candidateOccurrences app bookFile source)"
    by (auto simp: allOccurrences_def)
  then obtain item where "occ \<in> set (itemOccurrences app bookFile source item)"
    by (auto simp: candidateOccurrences_def split: option.splits)
  then show ?thesis by (rule itemOccurrences_token)
qed

lemma allOccurrences_nonempty:
  "list_all (\<lambda>occ. fst occ \<noteq> []) (allOccurrences app bookFile)"
  using allOccurrences_token by (auto simp: list_all_iff)

lemma getHighlightsForBook_eq:
  "getHighlightsForBook app bookFile limit =
     take (nat (max 1 limit))
       (List.map_filter descriptorOf (firstOccurrences {} (allOccurrences app bookFile)))"
  using collect_results [OF allOccurrences_nonempty, of limit app bookFile "{}" "[]"]
  by (simp add: getHighlightsForBook_collect)

lemma count_distinct_keys:
  "distinct (map f xs) \<Longrightarrow> length (filter (\<lambda>x. f x = k) xs) = (if k \<in> f ` set xs then 1 else 0)"
  by (induction xs) auto

lemma getHighlightsForBook_bound:
  assumes "1 \<le> limit"
  shows "int (length (getHighlightsForBook app bookFile limit)) \<le> limit"
proof -
  have "length (getHighlightsForBook app bookFile limit) \<le> nat (max 1 limit)"
    unfolding getHighlightsForBook_eq by simp
  then show ?thesis using assms by simp
qed

lemma map_filter_member:
  "y \<in> set (List.map_filter f xs) \<Longrightarrow> \<exists>x \<in> set xs. f x = Some y"
  by (auto simp: List.map_filter_def)

lemma getHighlightsForBook_provenance:
  assumes "h \<in> set (getHighlightsForBook app bookFile limit)"
  shows "\<exists>encoded. (encoded, sourceFile h, display h) \<in> set (allOccurrences app bookFile) \<and>
           base64UrlDecode encoded = Inr (cfiRange h)"
proof -
  from assms have hin: "h \<in> set (List.map_filter descriptorOf
      (firstOccurrences {} (allOccurrences app bookFile)))"
    unfolding getHighlightsForBook_eq by (rule in_set_takeD)
  from map_filter_member [OF hin]
  obtain occ where occ: "occ \<in> set (firstOccurrences {} (allOccurrences app bookFile))"
    and d: "descriptorOf occ = Some h" ..
  obtain encoded source disp where o: "occ = (encoded, source, disp)" by (cases occ)
  have d': "(case base64UrlDecode encoded of Inl x \<Rightarrow> None
      | Inr decoded \<Rightarrow> Some \<lparr>cfiRange = decoded, sourceFile = source, display = disp\<rparr>) = Some h"
    using d unfolding descriptorOf_def o by simp
  then obtain decoded where dec: "base64UrlDecode encoded = Inr decoded"
    and h: "h = \<lparr>cfiRange = decoded, sourceFile = source, display = disp\<rparr>"
    by (cases "base64UrlDecode encoded") simp_all
  have fields: "cfiRange h = decoded" "sourceFile h = source" "display h = disp"
    unfolding h by simp_all
  have "occ \<in> set (allOccurrences app bookFile)"
    using occ firstOccurrences_subset by (rule subsetD [rotated])
  then have "(encoded, sourceFile h, display h) \<in> set (allOccurrences app bookFile)"
    unfolding o fields .
  moreover have "base64UrlDecode encoded = Inr (cfiRange h)"
    unfolding fields by (rule dec)
  ultimately show ?thesis by (intro exI conjI)
qed

lemma regexSearch_substring:
  "regexSearch key s = Some (e, m) \<Longrightarrow> \<exists>pre post. s = pre @ key @ m @ post"
proof (induction s arbitrary: e)
  case Nil
  then show ?case by simp
next
  case (Cons c cs)
  show ?case
  proof (cases "startsWith (c # cs) key \<and> takeWhile tokenChar (drop (length key) (c # cs)) \<noteq> []")
    case True
    with Cons.prems have m: "m = takeWhile tokenChar (drop (length key) (c # cs))" by auto
    have "c # cs = take (length key) (c # cs) @ drop (length key) (c # cs)" by simp
    also have "take (length key) (c # cs) = key" using True by (simp add: startsWith_def)
    also have "drop (length key) (c # cs) = m @ dropWhile tokenChar (drop (length key) (c # cs))"
      unfolding m by simp
    finally have "c # cs = [] @ key @ m @ dropWhile tokenChar (drop (length key) (c # cs))"
      by simp
    then show ?thesis by blast
  next
    case False
    with Cons.prems obtain e' where "regexSearch key cs = Some (e', m)"
      by (auto split: if_splits)
    from Cons.IH [OF this] obtain pre post where "cs = pre @ key @ m @ post" by blast
    then have "c # cs = (c # pre) @ key @ m @ post" by simp
    then show ?thesis by blast
  qed
qed

lemma allMatches_substring:
  "encoded \<in> set (allMatches str lastIndex) \<Longrightarrow>
     \<exists>pre post. str = pre @ js ''#cfi64='' @ encoded @ post"
proof (induction str lastIndex rule: allMatches.induct)
  case (1 str lastIndex)
  show ?case
  proof (cases "CFI64_REGEX_exec str lastIndex")
    case None
    with "1.prems" show ?thesis by (subst (asm) allMatches.simps) simp
  next
    case (Some p)
    obtain m lastIndex' where p: "p = (m, lastIndex')" by (cases p)
    from "1.prems" have "encoded = m \<or> encoded \<in> set (allMatches str lastIndex')"
      by (subst (asm) allMatches.simps) (simp add: Some p)
    then show ?thesis
    proof
      assume e: "encoded = m"
      from Some p obtain e' where "regexSearch (js ''#cfi64='') (drop lastIndex str) = Some (e', m)"
        by (auto simp: CFI64_REGEX_exec_def split: if_splits option.splits)
      from regexSearch_substring [OF this] obtain pre post
        where "drop lastIndex str = pre @ js ''#cfi64='' @ m @ post" by blast
      then have "str = (take lastIndex str @ pre) @ js ''#cfi64='' @ m @ post"
        by (metis append.assoc append_take_drop_id)
      then show ?thesis using e by blast
    next
      assume "encoded \<in> set (allMatches str lastIndex')"
      with "1.IH" [OF Some p [symmetric]] show ?thesis by blast
    qed
  qed
qed

lemma occurrence_in_link_text:
  assumes "(encoded, source, disp) \<in> set (allOccurrences app bookFile)"
  shows "source \<in> set (coarseCandidates app (path bookFile) (resolvedLinks app)) \<and>
     (\<exists>cache item orig pre post.
        getFileCache app source = Some cache \<and> item \<in> set (cacheItems cache) \<and>
        original item = Some orig \<and> orig = pre @ js ''#cfi64='' @ encoded @ post)"
proof -
  from assms obtain src where src: "src \<in> set (coarseCandidates app (path bookFile) (resolvedLinks app))"
    and c: "(encoded, source, disp) \<in> set (candidateOccurrences app bookFile src)"
    by (auto simp: allOccurrences_def)
  show ?thesis
  proof (cases "getFileCache app src")
    case None
    with c show ?thesis by (simp add: candidateOccurrences_def)
  next
    case (Some cache)
    with c obtain item where item: "item \<in> set (cacheItems cache)"
      and i: "(encoded, source, disp) \<in> set (itemOccurrences app bookFile src item)"
      by (auto simp: candidateOccurrences_def)
    from i obtain orig where orig: "original item = Some orig" and same: "source = src"
      and m: "encoded \<in> set (allMatches orig 0)"
      by (auto simp: itemOccurrences_def split: option.splits if_splits)
    from allMatches_substring [OF m] obtain pre post
      where "orig = pre @ js ''#cfi64='' @ encoded @ post" by blast
    with src Some item orig same show ?thesis by blast
  qed
qed

subsection \<open>The example vault\<close>

lemma ex_decode_4: "base64UrlDecode (js token4) = Inr (js ''epubcfi(/6/4)'')"
  by (simp add: token4_def base64UrlDecode_def padLoop.simps replaceAll_def js_def atob_def
      removePadding_def asciiWhitespace_def b64value_def TextDecoder_decode_def utf16Encode_def)

lemma ex_decode_8: "base64UrlDecode (js token8) = Inr (js ''epubcfi(/6/8)'')"
  by (simp add: token8_def base64UrlDecode_def padLoop.simps replaceAll_def js_def atob_def
      removePadding_def asciiWhitespace_def b64value_def TextDecoder_decode_def utf16Encode_def)

lemma ex_tokens_differ: "js token8 \<noteq> js token4"
  by (simp add: token4_def token8_def js_def)

lemma ex_matches_4:
  "allMatches (js ''[[Books/Book.epub#cfi64='' @ js token4 @ js ''|'' @ js ''A'' @ js '']]'') 0
     = [js token4]"
  by (simp add: allMatches.simps CFI64_REGEX_exec_def startsWith_def tokenChar_def js_def token4_def)

lemma ex_matches_4B:
  "allMatches (js ''[[Books/Book.epub#cfi64='' @ js token4 @ js ''|'' @ js ''B'' @ js '']]'') 0
     = [js token4]"
  by (simp add: allMatches.simps CFI64_REGEX_exec_def startsWith_def tokenChar_def js_def token4_def)

lemma ex_matches_8B:
  "allMatches (js ''[[Books/Book.epub#cfi64='' @ js token8 @ js ''|'' @ js ''B'' @ js '']]'') 0
     = [js token8]"
  by (simp add: allMatches.simps CFI64_REGEX_exec_def startsWith_def tokenChar_def js_def token8_def)

lemma ex_coarse:
  "coarseCandidates (exampleApp [(''A'', t1), (''B'', t2)]) (path exampleBook)
     (resolvedLinks (exampleApp [(''A'', t1), (''B'', t2)])) = [exampleNote ''A'', exampleNote ''B'']"
  by (simp add: exampleApp_def exampleBook_def js_def)

lemma ex_cache_A:
  "getFileCache (exampleApp [(''A'', t1), (''B'', t2)]) (exampleNote ''A'') =
     Some \<lparr>links = Some [exampleLink t1 ''A''], embeds = None\<rparr>"
  by (simp add: exampleApp_def exampleNote_def js_def)

lemma ex_cache_B:
  "getFileCache (exampleApp [(''A'', t1), (''B'', t2)]) (exampleNote ''B'') =
     Some \<lparr>links = Some [exampleLink t2 ''B''], embeds = None\<rparr>"
  by (simp add: exampleApp_def exampleNote_def js_def)

lemma ex_dest:
  "getFirstLinkpathDest (exampleApp notes) (link (exampleLink tok label)) src = Some exampleBook"
  by (simp add: exampleApp_def exampleLink_def startsWith_def js_def)

lemma ex_indexOf:
  "indexOf (js ''[[Books/Book.epub#cfi64='' @ rest) (js ''#cfi64='') \<noteq> - 1"
  by (simp add: indexOf_def startsWith_def js_def)

lemma ex_itemOccurrences:
  "itemOccurrences (exampleApp notes) exampleBook (exampleNote name) (exampleLink tok label) =
     map (\<lambda>encoded. (encoded, exampleNote name, js label))
       (allMatches (js ''[[Books/Book.epub#cfi64='' @ js tok @ js ''|'' @ js label @ js '']]'') 0)"
  using ex_indexOf [of "js tok @ js ''|'' @ js label @ js '']]''"]
  by (simp add: itemOccurrences_def ex_dest) (simp add: exampleLink_def js_def)

lemma ex_allOccurrences_same:
  "allOccurrences (exampleApp [(''A'', token4), (''B'', token4)]) exampleBook =
     [(js token4, exampleNote ''A'', js ''A''), (js token4, exampleNote ''B'', js ''B'')]"
  by (simp add: allOccurrences_def ex_coarse candidateOccurrences_def ex_cache_A ex_cache_B
      cacheItems_def ex_itemOccurrences ex_matches_4 ex_matches_4B)

lemma ex_allOccurrences_two:
  "allOccurrences (exampleApp [(''A'', token4), (''B'', token8)]) exampleBook =
     [(js token4, exampleNote ''A'', js ''A''), (js token8, exampleNote ''B'', js ''B'')]"
  by (simp add: allOccurrences_def ex_coarse candidateOccurrences_def ex_cache_A ex_cache_B
      cacheItems_def ex_itemOccurrences ex_matches_4 ex_matches_8B)

lemma ex_decode_odd: "base64UrlDecode (js ''ZXB1Y'') = Inl InvalidCharacterError"
  by (simp add: base64UrlDecode_def padLoop.simps replaceAll_def js_def atob_def removePadding_def
      asciiWhitespace_def b64value_def)

lemma ex_matches_odd:
  "allMatches (js ''[[Books/Book.epub#cfi64='' @ js ''ZXB1Y'' @ js ''|'' @ js ''A'' @ js '']]'') 0
     = [js ''ZXB1Y'']"
  by (simp add: allMatches.simps CFI64_REGEX_exec_def startsWith_def tokenChar_def js_def)

lemma ex_matches_odd_B:
  "allMatches (js ''[[Books/Book.epub#cfi64='' @ js ''ZXB1Y'' @ js ''|'' @ js ''B'' @ js '']]'') 0
     = [js ''ZXB1Y'']"
  by (simp add: allMatches.simps CFI64_REGEX_exec_def startsWith_def tokenChar_def js_def)

lemma ex_matches_8C:
  "allMatches (js ''[[Books/Book.epub#cfi64='' @ js token8 @ js ''|'' @ js ''C'' @ js '']]'') 0
     = [js token8]"
  by (simp add: allMatches.simps CFI64_REGEX_exec_def startsWith_def tokenChar_def js_def token8_def)

lemma ex_coarse3:
  "coarseCandidates (exampleApp [(''A'', t1), (''B'', t2), (''C'', t3)]) (path exampleBook)
     (resolvedLinks (exampleApp [(''A'', t1), (''B'', t2), (''C'', t3)])) =
   [exampleNote ''A'', exampleNote ''B'', exampleNote ''C'']"
  by (simp add: exampleApp_def exampleBook_def js_def)

lemma ex_cache3:
  "getFileCache (exampleApp [(''A'', t1), (''B'', t2), (''C'', t3)]) (exampleNote ''A'') =
     Some \<lparr>links = Some [exampleLink t1 ''A''], embeds = None\<rparr>"
  "getFileCache (exampleApp [(''A'', t1), (''B'', t2), (''C'', t3)]) (exampleNote ''B'') =
     Some \<lparr>links = Some [exampleLink t2 ''B''], embeds = None\<rparr>"
  "getFileCache (exampleApp [(''A'', t1), (''B'', t2), (''C'', t3)]) (exampleNote ''C'') =
     Some \<lparr>links = Some [exampleLink t3 ''C''], embeds = None\<rparr>"
  by (simp_all add: exampleApp_def exampleNote_def js_def)

lemma ex_allOccurrences_odd:
  "allOccurrences (exampleApp [(''A'', ''ZXB1Y''), (''B'', ''ZXB1Y'')]) exampleBook =
     [(js ''ZXB1Y'', exampleNote ''A'', js ''A''), (js ''ZXB1Y'', exampleNote ''B'', js ''B'')]"
  by (simp add: allOccurrences_def ex_coarse candidateOccurrences_def ex_cache_A ex_cache_B
      cacheItems_def ex_itemOccurrences ex_matches_odd ex_matches_odd_B)

lemma ex_allOccurrences_three:
  "allOccurrences (exampleApp [(''A'', token4), (''B'', token8), (''C'', token8)]) exampleBook =
     [(js token4, exampleNote ''A'', js ''A''), (js token8, exampleNote ''B'', js ''B''),
      (js token8, exampleNote ''C'', js ''C'')]"
  by (simp add: allOccurrences_def ex_coarse3 candidateOccurrences_def ex_cache3
      cacheItems_def ex_itemOccurrences ex_matches_4 ex_matches_8B ex_matches_8C)

text \<open>
  Claim C6 (as amended).  The result of \<open>getHighlightsForBook\<close> is made of the first
  occurrence of each token among the occurrences of all candidate notes, in the order of
  the scan: it is the list of the descriptors of these first occurrences that decode, cut
  at the limit.  No token is among the first occurrences twice, and a token that occurs
  in any note is among them exactly once: two notes with the same token give at most one
  descriptor, that of the note scanned first, and exactly one when the token decodes and
  the limit is not reached before it.
\<close>

theorem resolver_dedup:
  "getHighlightsForBook app bookFile limit =
     take (nat (max 1 limit))
       (List.map_filter descriptorOf (firstOccurrences {} (allOccurrences app bookFile))) \<and>
   distinct (map fst (firstOccurrences {} (allOccurrences app bookFile))) \<and>
   length (filter (\<lambda>occ. fst occ = encoded) (firstOccurrences {} (allOccurrences app bookFile))) =
     (if encoded \<in> fst ` set (allOccurrences app bookFile) then 1 else 0)"
proof -
  have d: "distinct (map fst (firstOccurrences {} (allOccurrences app bookFile)))"
    by (rule firstOccurrences_distinct)
  have t: "fst ` set (firstOccurrences {} (allOccurrences app bookFile)) =
      fst ` set (allOccurrences app bookFile)"
    by (simp add: firstOccurrences_tokens)
  show ?thesis
    using count_distinct_keys [OF d, of encoded] d unfolding t
    by (simp add: getHighlightsForBook_eq)
qed

theorem resolver_dedup_witness:
  "getHighlightsForBook (exampleApp [(''A'', token4), (''B'', token4)]) exampleBook 200 =
     [\<lparr>cfiRange = js ''epubcfi(/6/4)'', sourceFile = exampleNote ''A'', display = js ''A''\<rparr>]"
  using resolver_dedup [of "exampleApp [(''A'', token4), (''B'', token4)]" exampleBook 200]
  by (simp add: ex_allOccurrences_same descriptorOf_def ex_decode_4 List.map_filter_simps)

text \<open>
  The claim as stated fails where no descriptor is made: two notes with the same token
  that does not decode give none, and with the limit 1 two notes with the same token give
  none when a third note with another token is scanned before them.
\<close>

theorem resolver_dedup_no_descriptor:
  "getHighlightsForBook (exampleApp [(''A'', ''ZXB1Y''), (''B'', ''ZXB1Y'')]) exampleBook 200 = [] \<and>
   getHighlightsForBook (exampleApp [(''A'', token4), (''B'', token8), (''C'', token8)]) exampleBook 1 =
     [\<lparr>cfiRange = js ''epubcfi(/6/4)'', sourceFile = exampleNote ''A'', display = js ''A''\<rparr>]"
  by (simp add: getHighlightsForBook_eq ex_allOccurrences_odd ex_allOccurrences_three descriptorOf_def
      ex_decode_odd ex_decode_4 ex_decode_8 ex_tokens_differ List.map_filter_simps)

text \<open>
  Claim C7, at the limit 0.  The bound is tested after a descriptor has been pushed, so
  with two notes that hold different tokens the call with the limit 0 returns one
  descriptor; with the limit 200 it returns both.  For a limit of at least 1 the bound
  holds (\<open>getHighlightsForBook_bound\<close>), and every descriptor comes from a token of a
  candidate note's link text (\<open>getHighlightsForBook_provenance\<close>,
  \<open>occurrence_in_link_text\<close>).
\<close>

theorem getHighlightsForBook_limit_zero:
  "getHighlightsForBook (exampleApp [(''A'', token4), (''B'', token8)]) exampleBook 0 =
     [\<lparr>cfiRange = js ''epubcfi(/6/4)'', sourceFile = exampleNote ''A'', display = js ''A''\<rparr>] \<and>
   getHighlightsForBook (exampleApp [(''A'', token4), (''B'', token8)]) exampleBook 200 =
     [\<lparr>cfiRange = js ''epubcfi(/6/4)'', sourceFile = exampleNote ''A'', display = js ''A''\<rparr>,
      \<lparr>cfiRange = js ''epubcfi(/6/8)'', sourceFile = exampleNote ''B'', display = js ''B''\<rparr>]"
  by (simp add: getHighlightsForBook_eq ex_allOccurrences_two descriptorOf_def ex_decode_4 ex_decode_8
      ex_tokens_differ List.map_filter_simps)

section \<open>Properties of the link parser\<close>

lemma parseEpubCfi64Link_raises:
  "parseEpubCfi64Link newURL toLowerCase normalizePath href = Inl e \<longleftrightarrow>
     href \<noteq> [] \<and> decodeURIComponent (fst (split2 (obsidianRaw newURL href))) = Inl e"
  by (auto simp: parseEpubCfi64Link_def Let_def split: prod.splits sum.splits option.splits if_splits)

lemma parseEpubCfi64Link_example:
  "parseEpubCfi64Link (\<lambda>s. None) (\<lambda>s. s) (\<lambda>s. s) (js ''Notes/Book.epub#cfi64=Zg_9'') =
     Inr (Some (js ''Notes/Book.epub'', js ''Zg_9''))"
  by (simp add: parseEpubCfi64Link_def obsidianRaw_def startsWith_def endsWith_def split2_def js_def
      tokenChar_def)

text \<open>
  Claim C8, at a link to a file whose name holds a \<^verbatim>\<open>%\<close> that starts no escape.  For the
  target \<^verbatim>\<open>100%.epub#cfi64=QQ\<close> the call \<^verbatim>\<open>decodeURIComponent(pathPartRaw)\<close>, which is
  not inside a \<^verbatim>\<open>try\<close>, throws \<^verbatim>\<open>URIError\<close>, and so does \<open>parseEpubCfi64Link\<close>, whatever
  the platform functions are.
\<close>

theorem parseEpubCfi64Link_throws:
  "parseEpubCfi64Link newURL toLowerCase normalizePath (js ''100%.epub#cfi64=QQ'') = Inl URIError"
  by (simp add: parseEpubCfi64Link_def obsidianRaw_def startsWith_def split2_def js_def hexDigit_def)


end
